theory Spec2Isabelle
  imports Main
begin

section \<open>The abstract syntax tree (internal/parser/types.go)\<close>

text \<open>
  The four node kinds implementing the Go interface \<open>Expression\<close>, with the fields in
  the order of the struct declarations; \<open>BlockStatement\<close> is the only \<open>Statement\<close>.
  A Go \<open>string\<close> is modelled as a \<open>string\<close> (a list of characters): the program only
  copies, concatenates and compares the texts it handles.
\<close>

datatype Expression =
    VariableReferenceExpression string
  | LiteralNumberExpression string
  | CallExpression "Expression list" string
  | AssignmentExpression Expression Expression

datatype Statement = BlockStatement "Expression list"

section \<open>Tokens and errors (internal/lexer)\<close>

datatype TokenType =
    TokenUnknown
  | TokenSquareBracketOpen
  | TokenSquareBracketClose
  | TokenComma
  | TokenName
  | TokenNumber
  | TokenSlash
  | TokenEquals

record Location =
  Col :: int
  Row :: int
  File :: string

record Token =
  Typ :: TokenType
  Value :: string
  Location :: Location

text \<open>
  The values of Go's \<open>error\<close> that the program creates: \<open>io.EOF\<close>, the wrapped
  \<open>ErrTokenNotExpected\<close> of \<open>expectToken\<close> (with the texts of the expected and the given
  token kind and the location of the token) and the error of \<open>parseExpression\<close> (with the
  token it could not start an expression with). \<open>nil\<close> is \<open>None\<close> of \<open>error option\<close>.
\<close>

datatype error =
    EOF
  | ErrTokenNotExpected string string Location
  | ErrParseExpression Token

record TokenResult =
  Token :: Token
  Error :: "error option"

definition UnknownToken :: Token where
  "UnknownToken =
     \<lparr>Typ = TokenUnknown, Value = ''<unknown>'', Location = \<lparr>Col = 0, Row = 0, File = ''''\<rparr>\<rparr>"

section \<open>Ways the process stops\<close>

text \<open>
  \<open>log.Fatal\<close> and run-time panics end the process; they are the \<open>Inl\<close> branch of
  every result. \<open>LogFatal\<close> carries a message, \<open>LogFatalError\<close> an error value;
  \<open>PanicIndex\<close> is Go's index (or slice bound) out of range, \<open>PanicTypeAssertion\<close> a
  failed single-valued type assertion \<open>x.(T)\<close>.
\<close>

datatype fatal =
    LogFatal string
  | LogFatalError error
  | PanicIndex
  | PanicTypeAssertion

section \<open>The lexer (internal/lexer/lexer.go)\<close>

text \<open>
  The reader \<open>source\<close> is the text not read yet, a list of runes. A rune is a \<open>char\<close>:
  the model covers the code points below 256, which include every character the lexer
  names. Reading from a text in memory has no failure other than \<open>io.EOF\<close>. \<open>row\<close> and
  \<open>col\<close> are unbounded integers (they only feed the locations of tokens).
\<close>

record Lexer =
  row :: int
  col :: int
  source :: string
  tokenQueue :: "TokenResult list"

definition New :: "string \<Rightarrow> Lexer" where
  "New src = \<lparr>row = 0, col = 0, source = src, tokenQueue = []\<rparr>"

text \<open>
  \<open>unicode.IsLetter\<close> and \<open>unicode.IsDigit\<close> of the Go library on the code points below
  256: the letters are A-Z, a-z, U+00AA, U+00B5, U+00BA, U+00C0-U+00D6, U+00D8-U+00F6 and
  U+00F8-U+00FF; the digits are 0-9.
\<close>

definition IsLetter :: "char \<Rightarrow> bool" where
  "IsLetter r =
    (let n = (of_char r :: nat) in
       (65 \<le> n \<and> n \<le> 90) \<or> (97 \<le> n \<and> n \<le> 122) \<or> n = 170 \<or> n = 181 \<or> n = 186 \<or>
       (192 \<le> n \<and> n \<le> 214) \<or> (216 \<le> n \<and> n \<le> 246) \<or> (248 \<le> n \<and> n \<le> 255))"

definition IsDigit :: "char \<Rightarrow> bool" where
  "IsDigit r = (let n = (of_char r :: nat) in 48 \<le> n \<and> n \<le> 57)"

text \<open>
  \<open>source.ReadBytes(delim)\<close>: reads up to and including the first \<open>delim\<close>; when the
  text ends before one, everything is read and the error is \<open>io.EOF\<close>. The result is the
  error and the text left.
\<close>

definition ReadBytes :: "char \<Rightarrow> string \<Rightarrow> error option \<times> string" where
  "ReadBytes delim src =
    (case dropWhile (\<lambda>c. c \<noteq> delim) src of
       [] \<Rightarrow> (Some EOF, [])
     | d # rest \<Rightarrow> (None, rest))"

text \<open>
  One pass through the body of the \<open>for\<close> loop of \<open>next\<close> (lines 146-292), from the
  values of the local variables: \<open>Inl\<close> is a \<open>return\<close> (the \<open>break\<close> of line 291
  included, which leads to the \<open>return\<close> of line 296), \<open>Inr\<close> is a \<open>continue\<close> with the
  new values. \<open>UnreadRune\<close> gives back the rune just read: the lexer is returned as it was
  before the read.
\<close>

definition next_body ::
  "Lexer \<Rightarrow> string \<Rightarrow> string \<Rightarrow> bool \<Rightarrow> bool \<Rightarrow> bool \<Rightarrow>
     ((Token \<times> error option) \<times> Lexer) + (Lexer \<times> string \<times> string \<times> bool \<times> bool \<times> bool)"
where
  "next_body l name number searchName searchNumber maybeComment =
    (case source l of
       [] \<Rightarrow> Inl ((UnknownToken, Some EOF), l)
     | r # rest \<Rightarrow>
        if searchName then
          (if IsDigit r \<or> IsLetter r then
             Inr (l\<lparr>source := rest, col := col l + 1\<rparr>, name @ [r], number,
                  searchName, searchNumber, maybeComment)
           else
             Inl ((\<lparr>Typ = TokenName, Value = name,
                    Location = \<lparr>Col = col l - int (length name), Row = row l, File = ''''\<rparr>\<rparr>,
                   None), l))
        else if searchNumber then
          (if IsDigit r then
             Inr (l\<lparr>source := rest, col := col l + 1\<rparr>, name, number @ [r],
                  searchName, searchNumber, maybeComment)
           else
             Inl ((\<lparr>Typ = TokenNumber, Value = number,
                    Location = \<lparr>Col = col l - int (length number), Row = row l, File = ''''\<rparr>\<rparr>,
                   None), l))
        else if IsLetter r then
          Inr (l\<lparr>source := rest, col := col l + 1\<rparr>, name @ [r], number,
               True, searchNumber, maybeComment)
        else if IsDigit r then
          Inr (l\<lparr>source := rest, col := col l + 1\<rparr>, name, number @ [r],
               searchName, True, maybeComment)
        else if r = CHR ''='' then
          Inl ((\<lparr>Typ = TokenEquals, Value = ''='',
                 Location = \<lparr>Col = 0, Row = 0, File = ''''\<rparr>\<rparr>, None),
               l\<lparr>source := rest\<rparr>)
        else if r = CHR 0x0A \<or> r = CHR 0x0B \<or> r = CHR 0x0C \<or> r = CHR 0x0D then
          Inr (l\<lparr>source := rest, row := row l + 1, col := 0\<rparr>, name, number,
               searchName, searchNumber, maybeComment)
        else if r = CHR '' '' \<or> r = CHR 0x09 \<or> r = CHR 0x85 \<or> r = CHR 0xA0 then
          Inr (l\<lparr>source := rest, col := col l + 1\<rparr>, name, number,
               searchName, searchNumber, maybeComment)
        else if r = CHR ''/'' then
          (if maybeComment then
             (case ReadBytes (CHR 0x0A) rest of
                (Some err, rest') \<Rightarrow> Inl ((UnknownToken, Some err), l\<lparr>source := rest'\<rparr>)
              | (None, rest') \<Rightarrow>
                  Inr (l\<lparr>source := rest'\<rparr>, name, number, searchName, searchNumber, False))
           else Inr (l\<lparr>source := rest\<rparr>, name, number, searchName, searchNumber, True))
        else if r = CHR ''['' then
          Inl ((\<lparr>Typ = TokenSquareBracketOpen, Value = ''['',
                 Location = \<lparr>Col = col l, Row = row l, File = ''''\<rparr>\<rparr>, None),
               l\<lparr>source := rest\<rparr>)
        else if r = CHR '']'' then
          Inl ((\<lparr>Typ = TokenSquareBracketClose, Value = '']'',
                 Location = \<lparr>Col = col l, Row = row l, File = ''''\<rparr>\<rparr>, None),
               l\<lparr>source := rest\<rparr>)
        else if r = CHR '','' then
          Inl ((\<lparr>Typ = TokenComma, Value = '','',
                 Location = \<lparr>Col = col l, Row = row l, File = ''''\<rparr>\<rparr>, None),
               l\<lparr>source := rest\<rparr>)
        else Inl ((UnknownToken, Some EOF), l\<lparr>source := rest\<rparr>))"

lemma length_ReadBytes: "length (snd (ReadBytes d src)) \<le> length src"
  using length_dropWhile_le [of "\<lambda>c. c \<noteq> d" src]
  by (auto simp: ReadBytes_def split: list.splits)

lemma next_body_decreases:
  "case next_body l name number sn sm mc of
     Inl res \<Rightarrow> True
   | Inr (l', rest) \<Rightarrow> length (source l') < length (source l) \<and> tokenQueue l' = tokenQueue l"
proof (cases "source l")
  case Nil
  then show ?thesis by (simp add: next_body_def)
next
  case (Cons r rest)
  obtain e rest' where rb: "ReadBytes (CHR 0x0A) rest = (e, rest')"
    by (cases "ReadBytes (CHR 0x0A) rest") auto
  with length_ReadBytes [of "CHR 0x0A" rest] have "length rest' \<le> length rest" by simp
  with Cons rb show ?thesis
    by (simp add: next_body_def split: option.split)
qed

lemma next_body_continue:
  assumes "next_body l name number sn sm mc = Inr (l', rest)"
  shows "length (source l') < length (source l)" and "tokenQueue l' = tokenQueue l"
  using next_body_decreases [where l = l and name = name and number = number and sn = sn
      and sm = sm and mc = mc] assms
  by simp_all

text \<open>The \<open>for\<close> loop of \<open>next\<close>.\<close>

function next_loop ::
  "Lexer \<Rightarrow> string \<Rightarrow> string \<Rightarrow> bool \<Rightarrow> bool \<Rightarrow> bool \<Rightarrow> (Token \<times> error option) \<times> Lexer"
where
  "next_loop l name number searchName searchNumber maybeComment =
    (case next_body l name number searchName searchNumber maybeComment of
       Inl result \<Rightarrow> result
     | Inr (l', name', number', searchName', searchNumber', maybeComment') \<Rightarrow>
         next_loop l' name' number' searchName' searchNumber' maybeComment')"
  by pat_completeness auto
termination
  by (relation "measure (\<lambda>(l, name, number, sn, sm, mc). length (source l))")
     (auto dest: next_body_continue(1))

declare next_loop.simps [simp del]

text \<open>
  \<open>next\<close>, named \<open>lexer_next\<close> here, starts the loop with empty \<open>name\<close> and \<open>number\<close>
  and the three flags false. \<open>lognext\<close> adds a line on standard output, which is not
  part of the model.
\<close>

definition lexer_next :: "Lexer \<Rightarrow> (Token \<times> error option) \<times> Lexer" where
  "lexer_next l = next_loop l [] [] False False False"

definition lognext :: "Lexer \<Rightarrow> (Token \<times> error option) \<times> Lexer" where
  "lognext l = lexer_next l"

text \<open>
  The loop \<open>for i := len(l.tokenQueue); i < count; i += 1\<close> of \<open>Peek\<close> and \<open>MustPeek\<close>
  runs \<open>count - len(l.tokenQueue)\<close> times (not at all when that is not positive) and
  appends one result each time, errors included.
\<close>

primrec fillQueue :: "nat \<Rightarrow> Lexer \<Rightarrow> Lexer" where
  "fillQueue 0 l = l"
| "fillQueue (Suc n) l =
    (case lognext l of
       ((token, err), l1) \<Rightarrow>
         fillQueue n (l1\<lparr>tokenQueue := tokenQueue l1 @ [\<lparr>Token = token, Error = err\<rparr>]\<rparr>))"

text \<open>\<open>count\<close> is a natural number; \<open>Peek(0)\<close> would index the queue at \<open>-1\<close>.\<close>

definition Peek :: "nat \<Rightarrow> Lexer \<Rightarrow> fatal + ((Token \<times> error option) \<times> Lexer)" where
  "Peek count l =
    (let l1 = fillQueue (count - length (tokenQueue l)) l in
     if count < 1 \<or> length (tokenQueue l1) \<le> count - 1 then Inl PanicIndex
     else
       (let token = tokenQueue l1 ! (count - 1) in Inr ((Token token, Error token), l1)))"

definition MustPeek :: "nat \<Rightarrow> Lexer \<Rightarrow> fatal + (Token \<times> Lexer)" where
  "MustPeek count l =
    (let l1 = fillQueue (count - length (tokenQueue l)) l in
     if count < 1 \<or> length (tokenQueue l1) \<le> count - 1 then Inl PanicIndex
     else
       (let token = tokenQueue l1 ! (count - 1) in
        case Error token of
          Some err \<Rightarrow> Inl (LogFatalError err)
        | None \<Rightarrow> Inr (Token token, l1)))"

definition Consume :: "Lexer \<Rightarrow> fatal + Lexer" where
  "Consume l =
    (if length (tokenQueue l) < 1 then Inl (LogFatal ''consume called with empty queue'')
     else Inr (l\<lparr>tokenQueue := drop 1 (tokenQueue l)\<rparr>))"

definition Next :: "Lexer \<Rightarrow> (Token \<times> error option) \<times> Lexer" where
  "Next l =
    (if length (tokenQueue l) > 0 then
       (let t = tokenQueue l ! 0 in ((Token t, Error t), l\<lparr>tokenQueue := drop 1 (tokenQueue l)\<rparr>))
     else lognext l)"

text \<open>\<open>TokenType.String\<close>; its default branch calls \<open>log.Fatal\<close>.\<close>

fun TokenType_String :: "TokenType \<Rightarrow> fatal + string" where
  "TokenType_String TokenSquareBracketOpen = Inr ''open square bracket''"
| "TokenType_String TokenSquareBracketClose = Inr ''close square bracket''"
| "TokenType_String TokenName = Inr ''name''"
| "TokenType_String TokenNumber = Inr ''number''"
| "TokenType_String TokenComma = Inr ''literal comma''"
| "TokenType_String TokenSlash = Inr ''slash''"
| "TokenType_String TokenEquals = Inr ''equals sign''"
| "TokenType_String TokenUnknown = Inl (LogFatal ''unreachable: trying to print null-token'')"

subsection \<open>What a token costs: the measure behind the parser's termination\<close>

text \<open>
  The characters not read yet plus the tokens (not errors) waiting in the queue. Peeking
  never raises this number, and taking a token lowers it.
\<close>

definition tokensLeft :: "Lexer \<Rightarrow> nat" where
  "tokensLeft l = length (source l) + length (filter (\<lambda>t. Error t = None) (tokenQueue l))"

definition frontOk :: "Lexer \<Rightarrow> bool" where
  "frontOk l = (tokenQueue l \<noteq> [] \<and> Error (tokenQueue l ! 0) = None)"

lemma next_body_return:
  "case next_body l name number sn sm mc of
     Inl ((t, e), l') \<Rightarrow>
       tokenQueue l' = tokenQueue l \<and> length (source l') \<le> length (source l) \<and>
       (e = None \<and> \<not> sn \<and> \<not> sm \<longrightarrow> length (source l') < length (source l))
   | Inr st \<Rightarrow> True"
proof (cases "source l")
  case Nil
  then show ?thesis by (simp add: next_body_def)
next
  case (Cons r rest)
  obtain e rest' where rb: "ReadBytes (CHR 0x0A) rest = (e, rest')"
    by (cases "ReadBytes (CHR 0x0A) rest") auto
  with length_ReadBytes [of "CHR 0x0A" rest] have "length rest' \<le> length rest" by simp
  with Cons rb show ?thesis
    by (simp add: next_body_def split: option.split)
qed

lemma next_loop_effect:
  "next_loop l name number sn sm mc = ((t, e), l') \<Longrightarrow>
     tokenQueue l' = tokenQueue l \<and> length (source l') \<le> length (source l) \<and>
     (e = None \<and> \<not> sn \<and> \<not> sm \<longrightarrow> length (source l') < length (source l))"
proof (induction l name number sn sm mc rule: next_loop.induct)
  case (1 l name number sn sm mc)
  show ?case
  proof (cases "next_body l name number sn sm mc")
    case (Inl res)
    with "1.prems" have "res = ((t, e), l')" by (subst (asm) next_loop.simps) simp
    with Inl next_body_return [where l = l and name = name and number = number and sn = sn
        and sm = sm and mc = mc]
    show ?thesis by simp
  next
    case (Inr st)
    obtain l1 name1 number1 sn1 sm1 mc1 where st: "st = (l1, name1, number1, sn1, sm1, mc1)"
      by (cases st) auto
    from "1.prems" Inr st have "next_loop l1 name1 number1 sn1 sm1 mc1 = ((t, e), l')"
      by (subst (asm) next_loop.simps) simp
    from "1.IH" [OF Inr [unfolded st] refl refl refl refl refl this]
    have ih: "tokenQueue l' = tokenQueue l1" "length (source l') \<le> length (source l1)"
      by simp_all
    from next_body_continue [OF Inr [unfolded st]]
    have "length (source l1) < length (source l)" "tokenQueue l1 = tokenQueue l" .
    with ih show ?thesis by simp
  qed
qed

lemma lognext_effect:
  assumes "lognext l = ((t, e), l1)"
  shows "tokenQueue l1 = tokenQueue l"
    and "length (source l1) \<le> length (source l)"
    and "e = None \<Longrightarrow> length (source l1) < length (source l)"
  using next_loop_effect [of l "[]" "[]" False False False t e l1] assms
  by (simp_all add: lognext_def lexer_next_def)

lemma lognext_tokensLeft:
  assumes "lognext l = ((t, e), l1)"
  shows "tokensLeft (l1\<lparr>tokenQueue := tokenQueue l1 @ [\<lparr>Token = t, Error = e\<rparr>]\<rparr>) \<le> tokensLeft l"
  using lognext_effect [OF assms] by (cases e) (simp_all add: tokensLeft_def)

lemma fillQueue_tokensLeft: "tokensLeft (fillQueue n l) \<le> tokensLeft l"
proof (induction n arbitrary: l)
  case 0
  show ?case by simp
next
  case (Suc n)
  obtain t e l1 where ln: "lognext l = ((t, e), l1)" by (metis surj_pair)
  from Suc [of "l1\<lparr>tokenQueue := tokenQueue l1 @ [\<lparr>Token = t, Error = e\<rparr>]\<rparr>"]
       lognext_tokensLeft [OF ln]
  show ?case using ln by simp
qed

lemma fillQueue_queue: "\<exists>ys. tokenQueue (fillQueue n l) = tokenQueue l @ ys \<and> length ys = n"
proof (induction n arbitrary: l)
  case 0
  show ?case by simp
next
  case (Suc n)
  obtain t e l1 where ln: "lognext l = ((t, e), l1)" by (metis surj_pair)
  from Suc [of "l1\<lparr>tokenQueue := tokenQueue l1 @ [\<lparr>Token = t, Error = e\<rparr>]\<rparr>"]
  obtain ys where "tokenQueue (fillQueue (Suc n) l) = (tokenQueue l1 @ [\<lparr>Token = t, Error = e\<rparr>]) @ ys"
    and "length ys = n" using ln by auto
  with lognext_effect(1) [OF ln] show ?case by simp
qed

lemma fillQueue_frontOk: "frontOk l \<Longrightarrow> frontOk (fillQueue n l)"
  using fillQueue_queue [of n l] by (auto simp: frontOk_def nth_append)

lemma Peek_tokensLeft: "Peek k l = Inr (r, l1) \<Longrightarrow> tokensLeft l1 \<le> tokensLeft l"
  using fillQueue_tokensLeft [of "k - length (tokenQueue l)" l]
  by (auto simp: Peek_def Let_def split: if_splits)

lemma Peek_frontOk: "frontOk l \<Longrightarrow> Peek k l = Inr (r, l1) \<Longrightarrow> frontOk l1"
  using fillQueue_frontOk [of l "k - length (tokenQueue l)"]
  by (auto simp: Peek_def Let_def split: if_splits)

lemma Peek1_frontOk: "Peek 1 l = Inr ((t, None), l1) \<Longrightarrow> frontOk l1"
  by (auto simp: Peek_def Let_def frontOk_def split: if_splits)

lemma MustPeek_tokensLeft: "MustPeek k l = Inr (r, l1) \<Longrightarrow> tokensLeft l1 \<le> tokensLeft l"
  using fillQueue_tokensLeft [of "k - length (tokenQueue l)" l]
  by (auto simp: MustPeek_def Let_def split: if_splits option.splits)

lemma Consume_tokensLeft:
  "frontOk l \<Longrightarrow> Consume l = Inr l1 \<Longrightarrow> tokensLeft l1 < tokensLeft l"
  by (cases "tokenQueue l") (auto simp: Consume_def frontOk_def tokensLeft_def split: if_splits)

lemma Next_tokensLeft:
  assumes "Next l = ((t, e), l1)"
  shows "tokensLeft l1 \<le> tokensLeft l" and "e = None \<Longrightarrow> tokensLeft l1 < tokensLeft l"
proof -
  show "tokensLeft l1 \<le> tokensLeft l"
  proof (cases "tokenQueue l")
    case Nil
    with assms have "lognext l = ((t, e), l1)" by (simp add: Next_def)
    from lognext_effect(1,2) [OF this] show ?thesis by (simp add: tokensLeft_def)
  next
    case (Cons a as)
    with assms show ?thesis by (auto simp: Next_def tokensLeft_def Let_def)
  qed
  show "tokensLeft l1 < tokensLeft l" if "e = None"
  proof (cases "tokenQueue l")
    case Nil
    with assms have "lognext l = ((t, e), l1)" by (simp add: Next_def)
    from lognext_effect(1,3) [OF this] that show ?thesis by (simp add: tokensLeft_def)
  next
    case (Cons a as)
    with assms that show ?thesis by (auto simp: Next_def tokensLeft_def Let_def)
  qed
qed

section \<open>The parser (internal/parser/parser.go)\<close>

text \<open>
  A Go result \<open>(value, error)\<close> of the parser is \<open>error + value\<close>; the lexer behind
  the parser's pointer is passed in and returned.
\<close>

definition expectToken ::
  "TokenType \<Rightarrow> Lexer \<Rightarrow> fatal + ((Token \<times> error option) \<times> Lexer)" where
  "expectToken tokenType l =
    (case Next l of
       ((token, Some err), l1) \<Rightarrow> Inr ((UnknownToken, Some err), l1)
     | ((token, None), l1) \<Rightarrow>
         if Typ token = tokenType then Inr ((token, None), l1)
         else
           (case TokenType_String tokenType of
              Inl f \<Rightarrow> Inl f
            | Inr expected \<Rightarrow>
               (case TokenType_String (Typ token) of
                  Inl f \<Rightarrow> Inl f
                | Inr given \<Rightarrow>
                    Inr ((UnknownToken,
                          Some (ErrTokenNotExpected expected given (Location token))), l1))))"

text \<open>
  \<open>parseArgs_loop\<close> is the \<open>for\<close> loop of \<open>parseArgs\<close> (lines 149-164) from the
  arguments collected so far.
\<close>

function (domintros)
    parseCall :: "Lexer \<Rightarrow> fatal + ((error + Expression) \<times> Lexer)"
and parseAssignment :: "Lexer \<Rightarrow> fatal + ((error + Expression) \<times> Lexer)"
and parseExpression :: "Lexer \<Rightarrow> fatal + ((error + Expression) \<times> Lexer)"
and parseArgs :: "Lexer \<Rightarrow> fatal + ((error + Expression list) \<times> Lexer)"
and parseArgs_loop :: "Expression list \<Rightarrow> Lexer \<Rightarrow> fatal + ((error + Expression list) \<times> Lexer)"
where
  "parseCall l =
    (case expectToken TokenName l of
       Inl f \<Rightarrow> Inl f
     | Inr ((called, Some err), l1) \<Rightarrow> Inr (Inl err, l1)
     | Inr ((called, None), l1) \<Rightarrow>
        (case expectToken TokenSquareBracketOpen l1 of
           Inl f \<Rightarrow> Inl f
         | Inr (_, l2) \<Rightarrow>
            (case parseArgs l2 of
               Inl f \<Rightarrow> Inl f
             | Inr (Inl err, l3) \<Rightarrow> Inr (Inl err, l3)
             | Inr (Inr args, l3) \<Rightarrow>
                (case expectToken TokenSquareBracketClose l3 of
                   Inl f \<Rightarrow> Inl f
                 | Inr (_, l4) \<Rightarrow> Inr (Inr (CallExpression args (Value called)), l4)))))"
| "parseAssignment l =
    (case expectToken TokenName l of
       Inl f \<Rightarrow> Inl f
     | Inr ((lhs, Some err), l1) \<Rightarrow> Inr (Inl err, l1)
     | Inr ((lhs, None), l1) \<Rightarrow>
        (case expectToken TokenEquals l1 of
           Inl f \<Rightarrow> Inl f
         | Inr (_, l2) \<Rightarrow>
            (case parseExpression l2 of
               Inl f \<Rightarrow> Inl f
             | Inr (Inl err, l3) \<Rightarrow> Inr (Inl err, l3)
             | Inr (Inr rhs, l3) \<Rightarrow>
                 Inr (Inr (AssignmentExpression (VariableReferenceExpression (Value lhs)) rhs),
                      l3))))"
| "parseExpression l =
    (case Peek 1 l of
       Inl f \<Rightarrow> Inl f
     | Inr ((token, Some err), l1) \<Rightarrow> Inr (Inl err, l1)
     | Inr ((token, None), l1) \<Rightarrow>
        if Typ token = TokenName then
          (case Peek 2 l1 of
             Inl f \<Rightarrow> Inl f
           | Inr ((t, err), l2) \<Rightarrow>
              if err = None \<and> Typ t = TokenSquareBracketOpen then parseCall l2
              else
                (case Peek 2 l2 of
                   Inl f \<Rightarrow> Inl f
                 | Inr ((t, err), l3) \<Rightarrow>
                    if err = None \<and> Typ t = TokenEquals then parseAssignment l3
                    else
                      (case Consume l3 of
                         Inl f \<Rightarrow> Inl f
                       | Inr l4 \<Rightarrow>
                           Inr (Inr (VariableReferenceExpression (Value token)), l4))))
        else if Typ token = TokenNumber then
          (case Consume l1 of
             Inl f \<Rightarrow> Inl f
           | Inr l2 \<Rightarrow> Inr (Inr (LiteralNumberExpression (Value token)), l2))
        else Inr (Inl (ErrParseExpression token), l1))"
| "parseArgs l =
    (case MustPeek 1 l of
       Inl f \<Rightarrow> Inl f
     | Inr (token, l1) \<Rightarrow>
        if Typ token \<noteq> TokenSquareBracketClose then
          (case parseExpression l1 of
             Inl f \<Rightarrow> Inl f
           | Inr (Inl err, l2) \<Rightarrow> Inr (Inl err, l2)
           | Inr (Inr e, l2) \<Rightarrow> parseArgs_loop [e] l2)
        else Inr (Inr [], l1))"
| "parseArgs_loop args l =
    (case Peek 1 l of
       Inl f \<Rightarrow> Inl f
     | Inr ((token, Some err), l1) \<Rightarrow> Inr (Inl err, l1)
     | Inr ((token, None), l1) \<Rightarrow>
        if Typ token = TokenComma then
          (case Consume l1 of
             Inl f \<Rightarrow> Inl f
           | Inr l2 \<Rightarrow>
              (case parseExpression l2 of
                 Inl f \<Rightarrow> Inl f
               | Inr (Inl err, l3) \<Rightarrow> Inr (Inl err, l3)
               | Inr (Inr e, l3) \<Rightarrow> parseArgs_loop (args @ [e]) l3))
        else Inr (Inr args, l1))"
  by pat_completeness auto

lemma expectToken_tokensLeft:
  assumes "expectToken tt l = Inr ((t, e), l1)"
  shows "tokensLeft l1 \<le> tokensLeft l" and "e = None \<Longrightarrow> tokensLeft l1 < tokensLeft l"
proof -
  obtain t0 e0 l0 where n: "Next l = ((t0, e0), l0)" by (metis surj_pair)
  from assms n have l0: "l0 = l1"
    by (auto simp: expectToken_def split: option.splits if_splits sum.splits)
  from Next_tokensLeft(1) [OF n] l0 show "tokensLeft l1 \<le> tokensLeft l" by simp
  show "tokensLeft l1 < tokensLeft l" if "e = None"
  proof -
    from assms n that have "e0 = None"
      by (auto simp: expectToken_def split: option.splits if_splits sum.splits)
    from Next_tokensLeft(2) [OF n this] l0 show ?thesis by simp
  qed
qed

lemma Consume_tokensLeft_le: "Consume l = Inr l1 \<Longrightarrow> tokensLeft l1 \<le> tokensLeft l"
  by (cases "tokenQueue l") (auto simp: Consume_def tokensLeft_def split: if_splits)

text \<open>The same facts as rules that walk a chain of calls backwards.\<close>

lemma expectToken_chain:
  "expectToken tt m = Inr (r, l1) \<Longrightarrow> tokensLeft m \<le> n \<Longrightarrow> tokensLeft l1 \<le> n"
  using expectToken_tokensLeft(1) [of tt m "fst r" "snd r" l1] by simp

lemma Peek_chain: "Peek k m = Inr (r, l1) \<Longrightarrow> tokensLeft m \<le> n \<Longrightarrow> tokensLeft l1 \<le> n"
  using Peek_tokensLeft [of k m r l1] by simp

lemma MustPeek_chain:
  "MustPeek k m = Inr (r, l1) \<Longrightarrow> tokensLeft m \<le> n \<Longrightarrow> tokensLeft l1 \<le> n"
  using MustPeek_tokensLeft [of k m r l1] by simp

lemma Consume_chain: "Consume m = Inr l1 \<Longrightarrow> tokensLeft m \<le> n \<Longrightarrow> tokensLeft l1 \<le> n"
  using Consume_tokensLeft_le [of m l1] by simp

lemmas lexer_chain = expectToken_chain Peek_chain MustPeek_chain Consume_chain

lemma parse_tokensLeft_partial:
  shows "parseCall_parseAssignment_parseExpression_parseArgs_parseArgs_loop_dom (Inl (Inl l1)) \<Longrightarrow>
           \<forall>r l'. parseCall l1 = Inr (r, l') \<longrightarrow> tokensLeft l' \<le> tokensLeft l1"
    and "parseCall_parseAssignment_parseExpression_parseArgs_parseArgs_loop_dom (Inl (Inr l2)) \<Longrightarrow>
           \<forall>r l'. parseAssignment l2 = Inr (r, l') \<longrightarrow> tokensLeft l' \<le> tokensLeft l2"
    and "parseCall_parseAssignment_parseExpression_parseArgs_parseArgs_loop_dom (Inr (Inl l3)) \<Longrightarrow>
           \<forall>r l'. parseExpression l3 = Inr (r, l') \<longrightarrow> tokensLeft l' \<le> tokensLeft l3"
    and "parseCall_parseAssignment_parseExpression_parseArgs_parseArgs_loop_dom (Inr (Inr (Inl l4))) \<Longrightarrow>
           \<forall>r l'. parseArgs l4 = Inr (r, l') \<longrightarrow> tokensLeft l' \<le> tokensLeft l4"
    and "parseCall_parseAssignment_parseExpression_parseArgs_parseArgs_loop_dom (Inr (Inr (Inr (args, l5)))) \<Longrightarrow>
           \<forall>r l'. parseArgs_loop args l5 = Inr (r, l') \<longrightarrow> tokensLeft l' \<le> tokensLeft l5"
proof (induct rule: parseCall_parseAssignment_parseExpression_parseArgs_parseArgs_loop.pinduct)
  case (1 l)
  have IH: "tokensLeft l' \<le> n"
    if "expectToken TokenName l = Inr ((called, None), m1)"
      and "expectToken TokenSquareBracketOpen m1 = Inr (x, m2)"
      and "parseArgs m2 = Inr (r, l')" and "tokensLeft m2 \<le> n" for called m1 x m2 r l' n
    using "1.hyps"(2) [OF that(1) refl refl refl that(2) refl] that(3,4) by auto
  show ?case
  proof (intro allI impI)
    fix r l'
    assume res: "parseCall l = Inr (r, l')"
    show "tokensLeft l' \<le> tokensLeft l"
      using res
      apply (subst (asm) parseCall.psimps [OF "1.hyps"(1)])
      apply (auto split: sum.splits prod.splits option.splits)
       apply ((rule order_refl | (rule IH, assumption, assumption, assumption)
               | (rule lexer_chain, assumption))+)+
      done
  qed
next
  case (2 l)
  have IH: "tokensLeft l' \<le> n"
    if "expectToken TokenName l = Inr ((lhs, None), m1)"
      and "expectToken TokenEquals m1 = Inr (x, m2)"
      and "parseExpression m2 = Inr (r, l')" and "tokensLeft m2 \<le> n" for lhs m1 x m2 r l' n
    using "2.hyps"(2) [OF that(1) refl refl refl that(2) refl] that(3,4) by auto
  show ?case
  proof (intro allI impI)
    fix r l'
    assume res: "parseAssignment l = Inr (r, l')"
    show "tokensLeft l' \<le> tokensLeft l"
      using res
      apply (subst (asm) parseAssignment.psimps [OF "2.hyps"(1)])
      apply (auto split: sum.splits prod.splits option.splits)
       apply ((rule order_refl | (rule IH, assumption, assumption, assumption)
               | (rule lexer_chain, assumption))+)+
      done
  qed
next
  case (3 l)
  have IH1: "tokensLeft l' \<le> n"
    if "Peek 1 l = Inr ((token, None), m1)" and "Typ token = TokenName"
      and "Peek 2 m1 = Inr ((t, None), m2)" and "Typ t = TokenSquareBracketOpen"
      and "parseCall m2 = Inr (r, l')" and "tokensLeft m2 \<le> n" for token m1 t m2 r l' n
    using "3.hyps"(2) [OF that(1) refl refl refl that(2) that(3) refl refl] that(4,5,6) by auto
  have IH2: "tokensLeft l' \<le> n"
    if "Peek 1 l = Inr ((token, None), m1)" and "Typ token = TokenName"
      and "Peek 2 m1 = Inr ((t, e), m2)" and "\<not> (e = None \<and> Typ t = TokenSquareBracketOpen)"
      and "Peek 2 m2 = Inr ((t', None), m3)" and "Typ t' = TokenEquals"
      and "parseAssignment m3 = Inr (r, l')" and "tokensLeft m3 \<le> n"
    for token m1 t e m2 t' m3 r l' n
    using "3.hyps"(3) [OF that(1) refl refl refl that(2) that(3) refl refl that(4) that(5) refl refl]
      that(6,7,8) by auto
  have IH2a: "tokensLeft l' \<le> n"
    if "Peek 1 l = Inr ((token, None), m1)" and "Typ token = TokenName"
      and "Peek 2 m1 = Inr ((t, Some y), m2)"
      and "Peek 2 m2 = Inr ((t', None), m3)" and "Typ t' = TokenEquals"
      and "parseAssignment m3 = Inr (r, l')" and "tokensLeft m3 \<le> n"
    for token m1 t y m2 t' m3 r l' n
    using IH2 [OF that(1,2,3) _ that(4,5,6,7)] by simp
  have IH2b: "tokensLeft l' \<le> n"
    if "Peek 1 l = Inr ((token, None), m1)" and "Typ token = TokenName"
      and "Peek 2 m1 = Inr ((t, e), m2)" and "Typ t \<noteq> TokenSquareBracketOpen"
      and "Peek 2 m2 = Inr ((t', None), m3)" and "Typ t' = TokenEquals"
      and "parseAssignment m3 = Inr (r, l')" and "tokensLeft m3 \<le> n"
    for token m1 t e m2 t' m3 r l' n
    using IH2 [OF that(1,2,3) _ that(5,6,7,8)] that(4) by simp
  show ?case
  proof (intro allI impI)
    fix r l'
    assume res: "parseExpression l = Inr (r, l')"
    show "tokensLeft l' \<le> tokensLeft l"
      using res
      apply (subst (asm) parseExpression.psimps [OF "3.hyps"(1)])
      apply (auto simp del: One_nat_def split: sum.splits prod.splits option.splits if_splits)
       apply ((rule order_refl | (rule IH1, assumption, assumption, assumption, assumption, assumption)
               | (rule IH2a, assumption, assumption, assumption, assumption, assumption, assumption)
               | (rule IH2b, assumption, assumption, assumption, assumption, assumption, assumption,
                    assumption)
               | (rule lexer_chain, assumption))+)+
      done
  qed
next
  case (4 l)
  have IH1: "tokensLeft l' \<le> n"
    if "MustPeek 1 l = Inr (token, m1)" and "Typ token \<noteq> TokenSquareBracketClose"
      and "parseExpression m1 = Inr (r, l')" and "tokensLeft m1 \<le> n" for token m1 r l' n
    using "4.hyps"(2) [OF that(1) refl that(2)] that(3,4) by auto
  have IH2: "tokensLeft l' \<le> n"
    if "MustPeek 1 l = Inr (token, m1)" and "Typ token \<noteq> TokenSquareBracketClose"
      and "parseExpression m1 = Inr (Inr e, m2)"
      and "parseArgs_loop [e] m2 = Inr (r, l')" and "tokensLeft m2 \<le> n" for token m1 e m2 r l' n
    using "4.hyps"(3) [OF that(1) refl that(2) that(3) refl refl] that(4,5) by auto
  show ?case
  proof (intro allI impI)
    fix r l'
    assume res: "parseArgs l = Inr (r, l')"
    show "tokensLeft l' \<le> tokensLeft l"
      using res
      apply (subst (asm) parseArgs.psimps [OF "4.hyps"(1)])
      apply (auto simp del: One_nat_def split: sum.splits prod.splits option.splits if_splits)
       apply ((rule order_refl | (rule IH1, assumption, assumption, assumption)
               | (rule IH2, assumption, assumption, assumption, assumption)
               | (rule lexer_chain, assumption))+)+
      done
  qed
next
  case (5 args l)
  have IH1: "tokensLeft l' \<le> n"
    if "Peek 1 l = Inr ((token, None), m1)" and "Typ token = TokenComma"
      and "Consume m1 = Inr m2"
      and "parseExpression m2 = Inr (r, l')" and "tokensLeft m2 \<le> n" for token m1 m2 r l' n
    using "5.hyps"(2) [OF that(1) refl refl refl that(2) that(3)] that(4,5) by auto
  have IH2: "tokensLeft l' \<le> n"
    if "Peek 1 l = Inr ((token, None), m1)" and "Typ token = TokenComma"
      and "Consume m1 = Inr m2" and "parseExpression m2 = Inr (Inr e, m3)"
      and "parseArgs_loop (args @ [e]) m3 = Inr (r, l')" and "tokensLeft m3 \<le> n"
    for token m1 m2 e m3 r l' n
    using "5.hyps"(3) [OF that(1) refl refl refl that(2) that(3) that(4) refl refl] that(5,6)
    by auto
  show ?case
  proof (intro allI impI)
    fix r l'
    assume res: "parseArgs_loop args l = Inr (r, l')"
    show "tokensLeft l' \<le> tokensLeft l"
      using res
      apply (subst (asm) parseArgs_loop.psimps [OF "5.hyps"(1)])
      apply (auto simp del: One_nat_def split: sum.splits prod.splits option.splits if_splits)
       apply ((rule order_refl | (rule IH1, assumption, assumption, assumption, assumption)
               | (rule IH2, assumption, assumption, assumption, assumption, assumption)
               | (rule lexer_chain, assumption))+)+
      done
  qed
qed

termination parseCall
proof (relation "inv_image (less_than <*lex*> less_than) (\<lambda>x. case x of
            Inl (Inl l) \<Rightarrow> (tokensLeft l, 1::nat)
          | Inl (Inr l) \<Rightarrow> (tokensLeft l, 1)
          | Inr (Inl l) \<Rightarrow> (tokensLeft l, 2)
          | Inr (Inr (Inl l)) \<Rightarrow> (tokensLeft l, 3)
          | Inr (Inr (Inr (args, l))) \<Rightarrow> (tokensLeft l, 0))", goal_cases)
  case 1
  show ?case by (intro wf_inv_image wf_lex_prod wf_less_than)
next
  case (2 l b x y xa ya ba xb yb)
  then have a: "expectToken TokenName l = Inr ((xa, None), y)"
    and b: "expectToken TokenSquareBracketOpen y = Inr ((fst xb, snd xb), yb)" by auto
  from expectToken_tokensLeft(2) [OF a refl] expectToken_tokensLeft(1) [OF b]
  show ?case by (auto simp: le_less)
next
  case (3 l b x y xa ya ba xb yb)
  then have a: "expectToken TokenName l = Inr ((xa, None), y)"
    and b: "expectToken TokenEquals y = Inr ((fst xb, snd xb), yb)" by auto
  from expectToken_tokensLeft(2) [OF a refl] expectToken_tokensLeft(1) [OF b]
  show ?case by (auto simp: le_less)
next
  case (4 l b x y xa ya ba xb yb xc yc)
  then have a: "Peek 1 l = Inr (x, y)" and b: "Peek 2 y = Inr (xb, yb)" by auto
  from Peek_tokensLeft [OF a] Peek_tokensLeft [OF b]
  show ?case by (auto simp: le_less)
next
  case (5 l b x y xa ya ba xb yb xc yc bb xd yd xe ye)
  then have a: "Peek 1 l = Inr (x, y)" and b: "Peek 2 y = Inr (xb, yb)"
    and c: "Peek 2 yb = Inr (xd, yd)" by auto
  from Peek_tokensLeft [OF a] Peek_tokensLeft [OF b] Peek_tokensLeft [OF c]
  show ?case by (auto simp: le_less)
next
  case (6 l b x y)
  then have a: "MustPeek 1 l = Inr (x, y)" by auto
  from MustPeek_tokensLeft [OF a] show ?case by (auto simp: le_less)
next
  case (7 l b x y ba xa ya bb)
  then have a: "MustPeek 1 l = Inr (x, y)" and b: "parseExpression y = Inr (xa, ya)" by auto
  from MustPeek_tokensLeft [OF a] parse_tokensLeft_partial(3) [OF "7"(7)] b
  show ?case by (auto simp: le_less)
next
  case (8 args l b x y xa ya ba)
  then have a: "Peek 1 l = Inr ((xa, None), y)" and b: "Consume y = Inr ba" by auto
  from Peek_tokensLeft [OF a] Consume_tokensLeft [OF Peek1_frontOk [OF a] b]
  show ?case by (auto simp: le_less)
next
  case (9 args l b x y xa ya ba bb xb yb bc)
  then have a: "Peek 1 l = Inr ((xa, None), y)" and b: "Consume y = Inr ba"
    and c: "parseExpression ba = Inr (xb, yb)" by auto
  from Peek_tokensLeft [OF a] Consume_tokensLeft [OF Peek1_frontOk [OF a] b]
    parse_tokensLeft_partial(3) [OF "9"(10)] c
  show ?case by (auto simp: le_less)
qed

declare parseCall.simps [simp del] parseAssignment.simps [simp del]
  parseExpression.simps [simp del] parseArgs.simps [simp del] parseArgs_loop.simps [simp del]

text \<open>Every call of the parser terminates: the domain predicate holds everywhere.\<close>

lemma parse_total:
  "parseCall_parseAssignment_parseExpression_parseArgs_parseArgs_loop_dom (Inl (Inl l1))"
  "parseCall_parseAssignment_parseExpression_parseArgs_parseArgs_loop_dom (Inl (Inr l2))"
  "parseCall_parseAssignment_parseExpression_parseArgs_parseArgs_loop_dom (Inr (Inl l3))"
  "parseCall_parseAssignment_parseExpression_parseArgs_parseArgs_loop_dom (Inr (Inr (Inl l4)))"
  "parseCall_parseAssignment_parseExpression_parseArgs_parseArgs_loop_dom (Inr (Inr (Inr (args, l5))))"
proof (induct l1 and l2 and l3 and l4 and args l5
    rule: parseCall_parseAssignment_parseExpression_parseArgs_parseArgs_loop.induct)
  case (1 l)
  show ?case
  proof (rule parseCall_parseAssignment_parseExpression_parseArgs_parseArgs_loop.domintros(1))
    fix a ba ab bc bd
    assume "expectToken TokenName l = Inr ((a, None), ba)"
      and "expectToken TokenSquareBracketOpen ba = Inr ((ab, bc), bd)"
    from "1" [OF this(1) refl refl refl this(2) refl]
    show "parseCall_parseAssignment_parseExpression_parseArgs_parseArgs_loop_dom
            (Inr (Inr (Inl bd)))" .
  qed
next
  case (2 l)
  show ?case
  proof (rule parseCall_parseAssignment_parseExpression_parseArgs_parseArgs_loop.domintros(2))
    fix a ba ab bc bd
    assume "expectToken TokenName l = Inr ((a, None), ba)"
      and "expectToken TokenEquals ba = Inr ((ab, bc), bd)"
    from "2" [OF this(1) refl refl refl this(2) refl]
    show "parseCall_parseAssignment_parseExpression_parseArgs_parseArgs_loop_dom
            (Inr (Inl bd))" .
  qed
next
  case (3 l)
  note IH = "3" [unfolded One_nat_def]
  show ?case
  proof (rule parseCall_parseAssignment_parseExpression_parseArgs_parseArgs_loop.domintros(3))
    fix a ba ab bd
    assume "Peek (Suc 0) l = Inr ((a, None), ba)" and "Typ a = TokenName"
      and "Peek 2 ba = Inr ((ab, None), bd)" and "Typ ab = TokenSquareBracketOpen"
    from IH(1) [OF this(1) refl refl refl this(2) this(3) refl refl] this(4)
    show "parseCall_parseAssignment_parseExpression_parseArgs_parseArgs_loop_dom
            (Inl (Inl bd))" by simp
  next
    fix a ba ab bd ad bg ye
    assume "Peek (Suc 0) l = Inr ((a, None), ba)" and "Typ a = TokenName"
      and "Peek 2 ba = Inr ((ab, Some ye), bd)"
      and "Peek 2 bd = Inr ((ad, None), bg)" and "Typ ad = TokenEquals"
    from IH(2) [OF this(1) refl refl refl this(2) this(3) refl refl _ this(4) refl refl] this(5)
    show "parseCall_parseAssignment_parseExpression_parseArgs_parseArgs_loop_dom
            (Inl (Inr bg))" by simp
  next
    fix a ba ab bc bd ad bg
    assume "Peek (Suc 0) l = Inr ((a, None), ba)" and "Typ a = TokenName"
      and "Peek 2 ba = Inr ((ab, bc), bd)"
      and "Peek 2 bd = Inr ((ad, None), bg)" and "Typ ad = TokenEquals"
      and "Typ ab \<noteq> TokenSquareBracketOpen"
    from IH(2) [OF this(1) refl refl refl this(2) this(3) refl refl _ this(4) refl refl]
      this(5,6)
    show "parseCall_parseAssignment_parseExpression_parseArgs_parseArgs_loop_dom
            (Inl (Inr bg))" by simp
  qed
next
  case (4 l)
  note IH = "4" [unfolded One_nat_def]
  show ?case
  proof (rule parseCall_parseAssignment_parseExpression_parseArgs_parseArgs_loop.domintros(4))
    fix a b
    assume "MustPeek (Suc 0) l = Inr (a, b)" and "Typ a \<noteq> TokenSquareBracketClose"
    from IH(1) [OF this(1) refl this(2)]
    show "parseCall_parseAssignment_parseExpression_parseArgs_parseArgs_loop_dom
            (Inr (Inl b))" .
  next
    fix a b ba bb
    assume "MustPeek (Suc 0) l = Inr (a, b)" and "Typ a \<noteq> TokenSquareBracketClose"
      and "parseExpression b = Inr (Inr bb, ba)"
    from IH(2) [OF this(1) refl this(2) this(3) refl refl]
    show "parseCall_parseAssignment_parseExpression_parseArgs_parseArgs_loop_dom
            (Inr (Inr (Inr ([bb], ba))))" .
  qed
next
  case (5 args l)
  note IH = "5" [unfolded One_nat_def]
  show ?case
  proof (rule parseCall_parseAssignment_parseExpression_parseArgs_parseArgs_loop.domintros(5))
    fix a ba baa
    assume "Peek (Suc 0) l = Inr ((a, None), ba)" and "Typ a = TokenComma"
      and "Consume ba = Inr baa"
    from IH(1) [OF this(1) refl refl refl this(2) this(3)]
    show "parseCall_parseAssignment_parseExpression_parseArgs_parseArgs_loop_dom
            (Inr (Inl baa))" .
  next
    fix a ba baa bc bca
    assume "Peek (Suc 0) l = Inr ((a, None), ba)" and "Typ a = TokenComma"
      and "Consume ba = Inr baa" and "parseExpression baa = Inr (Inr bca, bc)"
    from IH(2) [OF this(1) refl refl refl this(2) this(3) this(4) refl refl]
    show "parseCall_parseAssignment_parseExpression_parseArgs_parseArgs_loop_dom
            (Inr (Inr (Inr (args @ [bca], bc))))" .
  qed
qed

lemma parseExpression_tokensLeft:
  "parseExpression l = Inr (r, l') \<Longrightarrow> tokensLeft l' \<le> tokensLeft l"
  using parse_tokensLeft_partial(3) [OF parse_total(3)] by blast

lemma parseArgs_tokensLeft:
  "parseArgs l = Inr (r, l') \<Longrightarrow> tokensLeft l' \<le> tokensLeft l"
  using parse_tokensLeft_partial(4) [OF parse_total(4)] by blast

lemma parseCall_consumes:
  assumes "parseCall l = Inr (Inr e, l')"
  shows "tokensLeft l' < tokensLeft l"
proof -
  from assms obtain called l1 where a: "expectToken TokenName l = Inr ((called, None), l1)"
    by (subst (asm) parseCall.simps) (auto split: sum.splits prod.splits option.splits)
  from assms a obtain x l2 where b: "expectToken TokenSquareBracketOpen l1 = Inr (x, l2)"
    by (subst (asm) parseCall.simps) (auto split: sum.splits prod.splits option.splits)
  from assms a b obtain args l3 where c: "parseArgs l2 = Inr (Inr args, l3)"
    by (subst (asm) parseCall.simps) (auto split: sum.splits prod.splits option.splits)
  from assms a b c obtain y where d: "expectToken TokenSquareBracketClose l3 = Inr (y, l')"
    by (subst (asm) parseCall.simps) (auto split: sum.splits prod.splits option.splits)
  from expectToken_tokensLeft(2) [OF a refl] expectToken_chain [OF b order_refl]
    parseArgs_tokensLeft [OF c] expectToken_chain [OF d order_refl]
  show ?thesis by simp
qed

text \<open>
  \<open>Parse\<close>: the loop of lines 42-55 from the expressions collected so far. The error
  \<open>io.EOF\<close> of \<open>parseCall\<close> ends the loop, any other error ends the process
  (\<open>log.Fatal(err)\<close>). The debug output is not part of the model.
\<close>

function Parse_loop :: "Expression list \<Rightarrow> Lexer \<Rightarrow> fatal + (Statement \<times> Lexer)" where
  "Parse_loop expressions l =
    (case parseCall l of
       Inl f \<Rightarrow> Inl f
     | Inr (Inl err, l1) \<Rightarrow>
         if err = EOF then Inr (BlockStatement expressions, l1) else Inl (LogFatalError err)
     | Inr (Inr e, l1) \<Rightarrow> Parse_loop (expressions @ [e]) l1)"
  by pat_completeness auto
termination
  by (relation "measure (\<lambda>(expressions, l). tokensLeft l)") (auto dest: parseCall_consumes)

declare Parse_loop.simps [simp del]

definition Parse :: "Lexer \<Rightarrow> fatal + (Statement \<times> Lexer)" where
  "Parse l = Parse_loop [] l"

section \<open>The Python printer (internal/printer/printers/python/python.go)\<close>

record Printer =
  usingAssocBuiltin :: bool
  usingPrintBuiltin :: bool

text \<open>\<open>strings.Join(elems, sep)\<close>.\<close>

fun Join :: "string list \<Rightarrow> string \<Rightarrow> string" where
  "Join [] sep = []"
| "Join [x] sep = x"
| "Join (x # y # ys) sep = x @ sep @ Join (y # ys) sep"

text \<open>The single-valued assertion \<open>e.(parser.VariableReferenceExpression).Value\<close>.\<close>

fun assertVariableReference :: "Expression \<Rightarrow> fatal + string" where
  "assertVariableReference (VariableReferenceExpression v) = Inr v"
| "assertVariableReference _ = Inl PanicTypeAssertion"

text \<open>The loop \<open>for i := range args { args[i] += "+1" }\<close> of the \<open>Inc\<close> form.\<close>

definition incArgs :: "string list \<Rightarrow> string list" where
  "incArgs args = map (\<lambda>a. a @ ''+1'') args"

text \<open>
  \<open>printExpression\<close> with the printer's two flags passed through. The auxiliary
  functions are its loops:
  \<^item> \<open>printArgs\<close>: \<open>for _, a := range e.Args\<close> (lines 43-45) and the loop over
    \<open>subargs.Args\<close> (lines 114-116);
  \<^item> \<open>letParams\<close>: the loop over \<open>e.Args[0 .. len-2]\<close> of the \<open>Let\<close> form (lines 55-64);
  \<^item> \<open>defParams\<close>: the loop over \<open>paramDef.Args\<close> of the \<open>Def\<close> form (lines 109-133).
  Arguments of \<open>fmt.Sprintf\<close> are evaluated left to right.
\<close>

function (sequential)
    printExpression :: "Printer \<Rightarrow> Expression \<Rightarrow> fatal + (string \<times> Printer)"
and printArgs :: "Printer \<Rightarrow> Expression list \<Rightarrow> fatal + (string list \<times> Printer)"
and letParams :: "Printer \<Rightarrow> Expression list \<Rightarrow> fatal + (string list \<times> Printer)"
and defParams :: "Printer \<Rightarrow> Expression list \<Rightarrow> fatal + (string list \<times> Printer)"
where
  "printExpression p (LiteralNumberExpression v) = Inr (v, p)"
| "printExpression p (VariableReferenceExpression v) = Inr (v, p)"
| "printExpression p (AssignmentExpression l r) = Inr (''<unknown>'', p)"
| "printExpression p (CallExpression eargs call) =
    (case printArgs p eargs of
       Inl f \<Rightarrow> Inl f
     | Inr (args, p1) \<Rightarrow>
        if call = ''Print'' then
          Inr (''builtin__print('' @ Join args '','' @ '')'', p1\<lparr>usingPrintBuiltin := True\<rparr>)
        else if call = ''Let'' then
          (case letParams p1 (take (length eargs - 1) eargs) of
             Inl f \<Rightarrow> Inl f
           | Inr (params, p2) \<Rightarrow>
              if eargs = [] then Inl PanicIndex
              else
                (case printExpression p2 (eargs ! (length eargs - 1)) of
                   Inl f \<Rightarrow> Inl f
                 | Inr (body, p3) \<Rightarrow>
                     Inr (''lambda '' @ Join params '', '' @ '': '' @ body, p3)))
        else if call = ''HashMap'' then Inr (''dict()'', p1)
        else if call = ''Map'' then
          (if length args < 1 then Inl PanicIndex
           else Inr (''map('' @ args ! 0 @ '', '' @ Join (drop 1 args) '', '' @ '')'', p1))
        else if call = ''List'' then Inr (''['' @ Join args '', '' @ '']'', p1)
        else if call = ''Call'' then
          (if length args < 1 then Inl PanicIndex
           else Inr (''(('' @ args ! 0 @ '')('' @ Join (drop 1 args) '','' @ ''))'', p1))
        else if call = ''Assoc'' then
          (if length args < 3 then Inl PanicIndex
           else Inr (''builtin__assoc('' @ args ! 0 @ '', '' @ args ! 1 @ '', '' @ args ! 2 @ '')'',
                     p1\<lparr>usingAssocBuiltin := True\<rparr>))
        else if call = ''Has'' then
          (if length args < 2 then Inl PanicIndex
           else Inr (''('' @ args ! 1 @ ''.get('' @ args ! 0 @ '', None) != None)'',
                     p1\<lparr>usingAssocBuiltin := True\<rparr>))
        else if call = ''Get'' then
          (if length args < 2 then Inl PanicIndex
           else Inr (''('' @ args ! 1 @ ''.get('' @ args ! 0 @ ''))'',
                     p1\<lparr>usingAssocBuiltin := True\<rparr>))
        else if call = ''Cond'' then
          (if length eargs < 2 then Inl PanicIndex
           else
             (case printExpression p1 (eargs ! 1) of
                Inl f \<Rightarrow> Inl f
              | Inr (t, p2) \<Rightarrow>
                 (case printExpression p2 (eargs ! 0) of
                    Inl f \<Rightarrow> Inl f
                  | Inr (c, p3) \<Rightarrow>
                     if length eargs < 3 then Inl PanicIndex
                     else
                       (case printExpression p3 (eargs ! 2) of
                          Inl f \<Rightarrow> Inl f
                        | Inr (e, p4) \<Rightarrow> Inr (t @ '' if '' @ c @ '' else '' @ e, p4)))))
        else if call = ''Def'' then
          (if length eargs < 1 then Inl PanicIndex
           else
             (case eargs ! 0 of
                VariableReferenceExpression defname \<Rightarrow>
                  if length eargs > 2 then
                    (case (case eargs ! 1 of
                             CallExpression pargs pcall \<Rightarrow>
                               if pcall = ''Args'' then defParams p1 pargs else Inr ([], p1)
                           | _ \<Rightarrow> Inr ([], p1)) of
                       Inl f \<Rightarrow> Inl f
                     | Inr (params, p2) \<Rightarrow>
                         (case printExpression p2 (eargs ! 2) of
                            Inl f \<Rightarrow> Inl f
                          | Inr (body, p3) \<Rightarrow>
                              Inr (defname @ '' = lambda '' @ Join params '', '' @ '': '' @ body, p3)))
                  else Inr (call @ ''('' @ Join args '','' @ '')'', p1)
              | AssignmentExpression lhs rhs \<Rightarrow>
                  (case assertVariableReference lhs of
                     Inl f \<Rightarrow> Inl f
                   | Inr name \<Rightarrow>
                      (case printExpression p1 rhs of
                         Inl f \<Rightarrow> Inl f
                       | Inr (v, p2) \<Rightarrow> Inr (name @ '' = '' @ v, p2)))
              | _ \<Rightarrow> Inr (call @ ''('' @ Join args '','' @ '')'', p1)))
        else if call = ''Inc'' then Inr (Join (incArgs args) '','', p1)
        else Inr (call @ ''('' @ Join args '','' @ '')'', p1))"
| "printArgs p [] = Inr ([], p)"
| "printArgs p (a # as) =
    (case printExpression p a of
       Inl f \<Rightarrow> Inl f
     | Inr (s, p1) \<Rightarrow>
        (case printArgs p1 as of
           Inl f \<Rightarrow> Inl f
         | Inr (ss, p2) \<Rightarrow> Inr (s # ss, p2)))"
| "letParams p [] = Inr ([], p)"
| "letParams p (AssignmentExpression lhs rhs # as) =
    (case assertVariableReference lhs of
       Inl f \<Rightarrow> Inl f
     | Inr variable \<Rightarrow>
        (case printExpression p rhs of
           Inl f \<Rightarrow> Inl f
         | Inr (val, p1) \<Rightarrow>
            (case letParams p1 as of
               Inl f \<Rightarrow> Inl f
             | Inr (params, p2) \<Rightarrow> Inr ((variable @ '' = '' @ val) # params, p2))))"
| "letParams p (VariableReferenceExpression v # as) =
    (case letParams p as of
       Inl f \<Rightarrow> Inl f
     | Inr (params, p1) \<Rightarrow> Inr (v # params, p1))"
| "letParams p (_ # as) = letParams p as"
| "defParams p [] = Inr ([], p)"
| "defParams p (VariableReferenceExpression argname # as) =
    (case defParams p as of
       Inl f \<Rightarrow> Inl f
     | Inr (params, p1) \<Rightarrow> Inr (argname # params, p1))"
| "defParams p (CallExpression sargs scall # as) =
    (if scall = ''Args'' then
       (case printArgs p sargs of
          Inl f \<Rightarrow> Inl f
        | Inr (subparams, p1) \<Rightarrow>
           (case defParams p1 as of
              Inl f \<Rightarrow> Inl f
            | Inr (params, p2) \<Rightarrow> Inr (subparams @ params, p2)))
     else if scall = ''HashMap'' then
       (if length sargs > 1 then Inl (LogFatal ''HashMap currently accept only one argument'')
        else if length sargs < 1 then Inl PanicIndex
        else
          (case assertVariableReference (sargs ! 0) of
             Inl f \<Rightarrow> Inl f
           | Inr name \<Rightarrow>
              (case defParams p as of
                 Inl f \<Rightarrow> Inl f
               | Inr (params, p1) \<Rightarrow> Inr ((name @ '' = dict()'') # params, p1))))
     else defParams p as)"
| "defParams p (AssignmentExpression lhs rhs # as) =
    (case assertVariableReference lhs of
       Inl f \<Rightarrow> Inl f
     | Inr name \<Rightarrow>
        (case printExpression p rhs of
           Inl f \<Rightarrow> Inl f
         | Inr (v, p1) \<Rightarrow>
            (case defParams p1 as of
               Inl f \<Rightarrow> Inl f
             | Inr (params, p2) \<Rightarrow> Inr ((name @ '' = '' @ v) # params, p2))))"
| "defParams p (_ # as) = defParams p as"
  by pat_completeness auto

lemma size_nth_less_size_list:
  "i < length (xs :: Expression list) \<Longrightarrow> size (xs ! i) < size_list size xs"
proof (induction xs arbitrary: i)
  case Nil
  then show ?case by simp
next
  case (Cons a xs)
  show ?case
  proof (cases i)
    case 0
    then show ?thesis by simp
  next
    case (Suc j)
    with Cons.prems have "j < length xs" by simp
    from Cons.IH [OF this] Suc show ?thesis by simp
  qed
qed

lemma size_nth_le_size_list:
  "i < length (xs :: Expression list) \<Longrightarrow> size (xs ! i) \<le> size_list size xs"
  using size_nth_less_size_list [of i xs] by simp

lemma size_nth_Call_le:
  assumes "i < length (xs :: Expression list)" and "xs ! i = CallExpression as c"
  shows "size_list size as \<le> size_list size xs"
  using size_nth_less_size_list [OF assms(1)] assms(2) by simp

lemma size_nth_Assignment_le:
  assumes "i < length (xs :: Expression list)" and "xs ! i = AssignmentExpression l r"
  shows "size r \<le> size_list size xs"
  using size_nth_less_size_list [OF assms(1)] assms(2) by simp

lemma size_list_take_le:
  "size_list size (take n (xs :: Expression list)) \<le> size_list size xs"
  by (induction xs arbitrary: n) (auto simp: take_Cons split: nat.splits)

termination printExpression
proof (relation "measure (\<lambda>x. case x of
          Inl (Inl (p, e)) \<Rightarrow> size e
        | Inl (Inr (p, es)) \<Rightarrow> size_list size es
        | Inr (Inl (p, es)) \<Rightarrow> size_list size es
        | Inr (Inr (p, es)) \<Rightarrow> size_list size es)", goal_cases)
  case (3 p eargs call x2 x y)
  show ?case using size_list_take_le [of "length eargs - 1" eargs] by simp
qed (auto simp: less_Suc_eq_le
       intro: size_nth_le_size_list size_nth_Call_le [of "Suc 0"] size_nth_Assignment_le [of 0])

text \<open>
  \<open>printStatement\<close>: its loop over \<open>s.Expressions\<close> is the loop \<open>printArgs\<close>; a
  \<open>Statement\<close> is always a \<open>BlockStatement\<close>.
\<close>

fun printStatement :: "Printer \<Rightarrow> Statement \<Rightarrow> fatal + (string \<times> Printer)" where
  "printStatement p (BlockStatement es) =
    (case printArgs p es of
       Inl f \<Rightarrow> Inl f
     | Inr (expressions, p1) \<Rightarrow> Inr (Join expressions ''\<newline>'', p1))"

definition printAssocBuiltin :: string where
  "printAssocBuiltin =
     ''def builtin__assoc(k, v, obj):\<newline>  obj[k] = v\<newline>  return obj\<newline>''"

definition printPrintBuiltin :: string where
  "printPrintBuiltin =
     ''def builtin__print(*args, **kwargs):\<newline>  print(*args, **kwargs)\<newline>  return args[0]\<newline>''"

text \<open>\<open>(*Printer).String\<close>, lines 15-24.\<close>

definition String :: "Printer \<Rightarrow> Statement \<Rightarrow> fatal + (string \<times> Printer)" where
  "String p ast =
    (case printStatement p ast of
       Inl f \<Rightarrow> Inl f
     | Inr (st, p1) \<Rightarrow>
        (let st1 = (if usingAssocBuiltin p1 then printAssocBuiltin @ ''\<newline>'' @ st else st);
             st2 = (if usingPrintBuiltin p1 then printPrintBuiltin @ ''\<newline>'' @ st1 else st1)
         in Inr (st2, p1)))"

text \<open>\<open>PrintPython\<close> (printer package): a fresh \<open>python.Printer{}\<close>, both flags false.\<close>

definition PrintPython :: "Statement \<Rightarrow> fatal + string" where
  "PrintPython ast =
    (case String \<lparr>usingAssocBuiltin = False, usingPrintBuiltin = False\<rparr> ast of
       Inl f \<Rightarrow> Inl f
     | Inr (st, p1) \<Rightarrow> Inr st)"

section \<open>The pipeline (cmd/exig/main.go)\<close>

text \<open>
  Lines 31-43 of \<open>main\<close>: a lexer on the source text, \<open>Parse\<close>, \<open>PrintPython\<close>.
  Opening the source file and writing the output file are outside the model.
\<close>

definition compile :: "string \<Rightarrow> fatal + string" where
  "compile src =
    (case Parse (New src) of
       Inl f \<Rightarrow> Inl f
     | Inr (ast, l) \<Rightarrow> PrintPython ast)"

section \<open>Vocabulary of the properties\<close>

text \<open>
  The call names for which \<open>printExpression\<close> has a branch of its own, and the
  expressions none of whose calls, at any depth, has such a name.
\<close>

definition specialForms :: "string list" where
  "specialForms = [''Print'', ''Let'', ''HashMap'', ''Map'', ''List'', ''Call'',
                   ''Assoc'', ''Has'', ''Get'', ''Cond'', ''Def'', ''Inc'']"

fun onlyGenericCalls :: "Expression \<Rightarrow> bool" where
  "onlyGenericCalls (VariableReferenceExpression v) = True"
| "onlyGenericCalls (LiteralNumberExpression v) = True"
| "onlyGenericCalls (CallExpression eargs call) =
     (call \<notin> set specialForms \<and> list_all onlyGenericCalls eargs)"
| "onlyGenericCalls (AssignmentExpression l r) = (onlyGenericCalls l \<and> onlyGenericCalls r)"

text \<open>
  Whether rendering an expression comes to a call of one of the forms \<open>Assoc\<close>, \<open>Has\<close>
  and \<open>Get\<close>: the call itself, one of its arguments (all are rendered, whatever the
  form), the right-hand side of a binding of \<open>Let\<close>, the right-hand side of the assignment
  of a one-argument \<open>Def\<close>, or an entry of the parameter list of \<open>Def\<close> (the right-hand
  side of an assignment, the members of a nested \<open>Args\<close>). The two sides of an assignment
  that is itself rendered are not rendered, so calls there do not count.
\<close>

function (sequential)
    rendersAssoc :: "Expression \<Rightarrow> bool"
and argsRenderAssoc :: "Expression list \<Rightarrow> bool"
and letRendersAssoc :: "Expression list \<Rightarrow> bool"
and defRendersAssoc :: "Expression list \<Rightarrow> bool"
where
  "rendersAssoc (LiteralNumberExpression v) = False"
| "rendersAssoc (VariableReferenceExpression v) = False"
| "rendersAssoc (AssignmentExpression l r) = False"
| "rendersAssoc (CallExpression eargs call) =
     (if argsRenderAssoc eargs then True
      else if call = ''Assoc'' \<or> call = ''Has'' \<or> call = ''Get'' then True
      else if call = ''Let'' then letRendersAssoc (take (length eargs - 1) eargs)
      else if call = ''Def'' \<and> 0 < length eargs then
        (case eargs ! 0 of
           VariableReferenceExpression defname \<Rightarrow>
             if 2 < length eargs then
               (case eargs ! 1 of
                  CallExpression pargs pcall \<Rightarrow>
                    if pcall = ''Args'' then defRendersAssoc pargs else False
                | _ \<Rightarrow> False)
             else False
         | AssignmentExpression lhs rhs \<Rightarrow> rendersAssoc rhs
         | _ \<Rightarrow> False)
      else False)"
| "argsRenderAssoc [] = False"
| "argsRenderAssoc (a # as) = (if rendersAssoc a then True else argsRenderAssoc as)"
| "letRendersAssoc [] = False"
| "letRendersAssoc (AssignmentExpression lhs rhs # as) =
     (if rendersAssoc rhs then True else letRendersAssoc as)"
| "letRendersAssoc (_ # as) = letRendersAssoc as"
| "defRendersAssoc [] = False"
| "defRendersAssoc (CallExpression sargs scall # as) =
     (if scall = ''Args'' \<and> argsRenderAssoc sargs then True else defRendersAssoc as)"
| "defRendersAssoc (AssignmentExpression lhs rhs # as) =
     (if rendersAssoc rhs then True else defRendersAssoc as)"
| "defRendersAssoc (_ # as) = defRendersAssoc as"
  by pat_completeness auto
termination
proof (relation "measure (\<lambda>x. case x of
          Inl (Inl e) \<Rightarrow> size e
        | Inl (Inr es) \<Rightarrow> size_list size es
        | Inr (Inl es) \<Rightarrow> size_list size es
        | Inr (Inr es) \<Rightarrow> size_list size es)", goal_cases)
  case (3 eargs call)
  show ?case using size_list_take_le [of "length eargs - 1" eargs] by simp
qed (auto simp: less_Suc_eq_le
       intro: size_nth_le_size_list size_nth_Call_le [of "Suc 0"] size_nth_Assignment_le [of 0])

text \<open>
  A text occurs in another at a position. An expression is colon-free when none of its
  names and numerals contains a colon (the lexer makes names of letters and digits and
  numerals of digits). In a text with spaced colons every colon is followed by a space.
\<close>

definition occursAt :: "string \<Rightarrow> string \<Rightarrow> nat \<Rightarrow> bool" where
  "occursAt s t i = (i + length s \<le> length t \<and> take (length s) (drop i t) = s)"

fun colonFree :: "Expression \<Rightarrow> bool" where
  "colonFree (VariableReferenceExpression v) = (CHR '':'' \<notin> set v)"
| "colonFree (LiteralNumberExpression v) = (CHR '':'' \<notin> set v)"
| "colonFree (CallExpression eargs call) = (CHR '':'' \<notin> set call \<and> list_all colonFree eargs)"
| "colonFree (AssignmentExpression l r) = (colonFree l \<and> colonFree r)"

fun colonsSpaced :: "string \<Rightarrow> bool" where
  "colonsSpaced [] = True"
| "colonsSpaced [c] = (c \<noteq> CHR '':'')"
| "colonsSpaced (c # d # cs) = ((c = CHR '':'' \<longrightarrow> d = CHR '' '') \<and> colonsSpaced (d # cs))"

primrec colonIndices :: "nat \<Rightarrow> string \<Rightarrow> nat list" where
  "colonIndices k [] = []"
| "colonIndices k (c # cs) = (if c = CHR '':'' then [k] else []) @ colonIndices (Suc k) cs"

text \<open>
  A token is clean when its text contains no colon, a lexer when the tokens waiting in its
  queue are clean.
\<close>

definition cleanToken :: "Token \<Rightarrow> bool" where
  "cleanToken t = (CHR '':'' \<notin> set (Value t))"

definition cleanLexer :: "Lexer \<Rightarrow> bool" where
  "cleanLexer l = list_all (\<lambda>t. cleanToken (Token t)) (tokenQueue l)"

text \<open>
  Whether a call of one of the forms \<open>Assoc\<close>, \<open>Has\<close> and \<open>Get\<close> occurs anywhere in an
  expression, rendered or not.
\<close>

fun mentionsAssoc :: "Expression \<Rightarrow> bool" where
  "mentionsAssoc (VariableReferenceExpression v) = False"
| "mentionsAssoc (LiteralNumberExpression v) = False"
| "mentionsAssoc (CallExpression eargs call) =
     (call = ''Assoc'' \<or> call = ''Has'' \<or> call = ''Get'' \<or> list_ex mentionsAssoc eargs)"
| "mentionsAssoc (AssignmentExpression l r) = (mentionsAssoc l \<or> mentionsAssoc r)"

section \<open>Generic calls\<close>

lemma printExpression_generic_name:
  assumes "call \<notin> set specialForms" and "printArgs p eargs = Inr (args, p1)"
  shows "printExpression p (CallExpression eargs call) =
           Inr (call @ ''('' @ Join args '','' @ '')'', p1)"
  using assms by (simp add: specialForms_def)

lemma printArgs_pointwise:
  assumes "\<forall>a\<in>set es. \<exists>s. printExpression p a = Inr (s, p)"
  shows "\<exists>ss. printArgs p es = Inr (ss, p) \<and>
              list_all2 (\<lambda>a s. printExpression p a = Inr (s, p)) es ss"
  using assms
proof (induction es)
  case Nil
  show ?case by simp
next
  case (Cons a es)
  from Cons.prems obtain s where s: "printExpression p a = Inr (s, p)" by auto
  from Cons obtain ss where ss: "printArgs p es = Inr (ss, p)"
      "list_all2 (\<lambda>a s. printExpression p a = Inr (s, p)) es ss" by auto
  show ?case using s ss by simp
qed

lemma printExpression_onlyGeneric:
  "onlyGenericCalls e \<Longrightarrow> \<exists>s. printExpression p e = Inr (s, p)"
proof (induction e)
  case (CallExpression eargs call)
  then have "\<forall>a\<in>set eargs. \<exists>s. printExpression p a = Inr (s, p)"
    by (auto simp: list_all_iff)
  from printArgs_pointwise [OF this] obtain ss where "printArgs p eargs = Inr (ss, p)" by blast
  with CallExpression.prems show ?case
    using printExpression_generic_name by simp
qed simp_all

text \<open>
  C1. In an expression none of whose calls is a special form, a call \<open>F[a, b, ...]\<close>
  renders without failure and without touching the printer's flags to the call name, an
  open parenthesis, the renderings of its arguments (each the result of
  \<open>printExpression\<close> on that argument, whatever its shape) joined by commas, and a close
  parenthesis.
\<close>

theorem generic_call_transliterated:
  assumes "onlyGenericCalls (CallExpression eargs f)"
  shows "\<exists>args. list_all2 (\<lambda>a s. printExpression p a = Inr (s, p)) eargs args \<and>
           printExpression p (CallExpression eargs f) =
             Inr (f @ ''('' @ Join args '','' @ '')'', p)"
proof -
  from assms have "\<forall>a\<in>set eargs. \<exists>s. printExpression p a = Inr (s, p)"
    by (auto simp: list_all_iff printExpression_onlyGeneric)
  from printArgs_pointwise [OF this] obtain ss where ss: "printArgs p eargs = Inr (ss, p)"
     "list_all2 (\<lambda>a s. printExpression p a = Inr (s, p)) eargs ss" by blast
  from assms have "f \<notin> set specialForms" by simp
  from printExpression_generic_name [OF this ss(1)] ss(2) show ?thesis by blast
qed

theorem generic_call_transliterated_witness:
  "onlyGenericCalls
     (CallExpression
        [CallExpression [LiteralNumberExpression ''1''] ''G'',
         LiteralNumberExpression ''2'',
         VariableReferenceExpression ''b'',
         AssignmentExpression (VariableReferenceExpression ''x'') (LiteralNumberExpression ''1'')]
        ''F'') \<and>
   printExpression \<lparr>usingAssocBuiltin = False, usingPrintBuiltin = False\<rparr>
     (CallExpression
        [CallExpression [LiteralNumberExpression ''1''] ''G'',
         LiteralNumberExpression ''2'',
         VariableReferenceExpression ''b'',
         AssignmentExpression (VariableReferenceExpression ''x'') (LiteralNumberExpression ''1'')]
        ''F'') =
     Inr (''F(G(1),2,b,<unknown>)'', \<lparr>usingAssocBuiltin = False, usingPrintBuiltin = False\<rparr>)"
  using generic_call_transliterated
    [of "[CallExpression [LiteralNumberExpression ''1''] ''G'',
          LiteralNumberExpression ''2'',
          VariableReferenceExpression ''b'',
          AssignmentExpression (VariableReferenceExpression ''x'') (LiteralNumberExpression ''1'')]"
        "''F''" "\<lparr>usingAssocBuiltin = False, usingPrintBuiltin = False\<rparr>"]
  by (simp add: specialForms_def)

section \<open>Worked examples of the special forms\<close>

text \<open>
  C4. \<open>Let[x, Print[x]]\<close> renders to \<open>lambda x: builtin__print(x)\<close> and marks the print
  helper as used; the output for the program consisting of that one call is the text of the
  print-helper definition (three lines, each ended by a newline), a newline, and that
  statement.
\<close>

theorem let_print_example:
  "printExpression \<lparr>usingAssocBuiltin = False, usingPrintBuiltin = False\<rparr>
     (CallExpression
        [VariableReferenceExpression ''x'',
         CallExpression [VariableReferenceExpression ''x''] ''Print''] ''Let'') =
     Inr (''lambda x: builtin__print(x)'', \<lparr>usingAssocBuiltin = False, usingPrintBuiltin = True\<rparr>) \<and>
   PrintPython (BlockStatement
     [CallExpression
        [VariableReferenceExpression ''x'',
         CallExpression [VariableReferenceExpression ''x''] ''Print''] ''Let'']) =
     Inr ''def builtin__print(*args, **kwargs):\<newline>  print(*args, **kwargs)\<newline>  return args[0]\<newline>\<newline>lambda x: builtin__print(x)''"
  by (simp add: PrintPython_def String_def printPrintBuiltin_def)

text \<open>
  C9. \<open>Def[MyPrint, Args[x], Print[x]]\<close> renders to
  \<open>MyPrint = lambda x: builtin__print(x)\<close>, from any state of the printer.
\<close>

theorem def_myprint_example:
  "printExpression p
     (CallExpression
        [VariableReferenceExpression ''MyPrint'',
         CallExpression [VariableReferenceExpression ''x''] ''Args'',
         CallExpression [VariableReferenceExpression ''x''] ''Print''] ''Def'') =
     Inr (''MyPrint = lambda x: builtin__print(x)'', p\<lparr>usingPrintBuiltin := True\<rparr>)"
  by simp

text \<open>
  C10. An assignment on which \<open>printExpression\<close> itself is called renders to the text
  \<open><unknown>\<close>, whatever its two sides are and without a change of the flags: so
  \<open>F[x = 1]\<close> renders to \<open>F(<unknown>)\<close>, and likewise as an argument of \<open>Map\<close> or
  \<open>List\<close> and as the body of a \<open>Let\<close>.
\<close>

theorem assignment_renders_unknown:
  "printExpression p (AssignmentExpression l r) = Inr (''<unknown>'', p) \<and>
   printExpression p
     (CallExpression
        [AssignmentExpression (VariableReferenceExpression ''x'') (LiteralNumberExpression ''1'')]
        ''F'') = Inr (''F(<unknown>)'', p) \<and>
   printExpression p
     (CallExpression
        [VariableReferenceExpression ''f'',
         AssignmentExpression (VariableReferenceExpression ''x'') (LiteralNumberExpression ''1'')]
        ''Map'') = Inr (''map(f, <unknown>)'', p) \<and>
   printExpression p
     (CallExpression
        [AssignmentExpression (VariableReferenceExpression ''x'') (LiteralNumberExpression ''1'')]
        ''List'') = Inr (''[<unknown>]'', p) \<and>
   printExpression p
     (CallExpression
        [VariableReferenceExpression ''x'',
         AssignmentExpression (VariableReferenceExpression ''y'') (LiteralNumberExpression ''1'')]
        ''Let'') = Inr (''lambda x: <unknown>'', p)"
  by simp

section \<open>The queue of peeked tokens\<close>




lemma TokenType_String_known: "ty \<noteq> TokenUnknown \<Longrightarrow> \<exists>s. TokenType_String ty = Inr s"
  by (cases ty) simp_all

lemma expectToken_mismatch:
  assumes "Next l = ((t, None), l1)" and "Typ t \<noteq> TokenUnknown" and "tt \<noteq> TokenUnknown"
  shows "\<exists>r. expectToken tt l = Inr (r, l1)"
proof -
  from TokenType_String_known [OF assms(2)] obtain s where "TokenType_String (Typ t) = Inr s" ..
  moreover from TokenType_String_known [OF assms(3)] obtain s' where "TokenType_String tt = Inr s'" ..
  ultimately show ?thesis using assms(1) by (simp add: expectToken_def)
qed

section \<open>Brackets of a call\<close>

text \<open>
  C5. \<open>parseCall\<close> takes the token after the name and the token after the arguments
  with \<open>expectToken\<close> and drops the result. Whatever the kinds of these two tokens (as
  long as each is a token of a kind that has a name, as every token of the lexer is), both
  are consumed and the call node is returned; when the kind is not the bracket expected,
  \<open>expectToken\<close> does return an error, which \<open>parseCall\<close> does not look at.
\<close>

theorem parseCall_tolerates_brackets:
  assumes "Next l = ((called, None), l1)" and "Typ called = TokenName"
    and "Next l1 = ((t1, None), l2)" and "Typ t1 \<noteq> TokenUnknown"
    and "parseArgs l2 = Inr (Inr args, l3)"
    and "Next l3 = ((t2, None), l4)" and "Typ t2 \<noteq> TokenUnknown"
  shows "parseCall l = Inr (Inr (CallExpression args (Value called)), l4) \<and>
         (Typ t1 \<noteq> TokenSquareBracketOpen \<longrightarrow>
           (\<exists>err. expectToken TokenSquareBracketOpen l1 = Inr ((UnknownToken, Some err), l2))) \<and>
         (Typ t2 \<noteq> TokenSquareBracketClose \<longrightarrow>
           (\<exists>err. expectToken TokenSquareBracketClose l3 = Inr ((UnknownToken, Some err), l4)))"
proof (intro conjI impI)
  have a: "expectToken TokenName l = Inr ((called, None), l1)"
    using assms(1,2) by (simp add: expectToken_def)
  from expectToken_mismatch [OF assms(3,4), of TokenSquareBracketOpen]
  obtain r1 where b: "expectToken TokenSquareBracketOpen l1 = Inr (r1, l2)" by auto
  from expectToken_mismatch [OF assms(6,7), of TokenSquareBracketClose]
  obtain r2 where c: "expectToken TokenSquareBracketClose l3 = Inr (r2, l4)" by auto
  show "parseCall l = Inr (Inr (CallExpression args (Value called)), l4)"
    by (subst parseCall.simps) (simp add: a b c assms(5))
  show "\<exists>err. expectToken TokenSquareBracketOpen l1 = Inr ((UnknownToken, Some err), l2)"
    if "Typ t1 \<noteq> TokenSquareBracketOpen"
    using TokenType_String_known [OF assms(4)] assms(3) that
    by (auto simp: expectToken_def)
  show "\<exists>err. expectToken TokenSquareBracketClose l3 = Inr ((UnknownToken, Some err), l4)"
    if "Typ t2 \<noteq> TokenSquareBracketClose"
    using TokenType_String_known [OF assms(7)] assms(6) that
    by (auto simp: expectToken_def)
qed

theorem parseCall_tolerates_brackets_witness:
  "parseCall (New ''Foo x y z '') =
     Inr (Inr (CallExpression [VariableReferenceExpression ''y''] ''Foo''),
          \<lparr>row = 0, col = 9, source = '' '', tokenQueue = []\<rparr>) \<and>
   (\<exists>err. expectToken TokenSquareBracketOpen
            \<lparr>row = 0, col = 3, source = '' x y z '', tokenQueue = []\<rparr> =
          Inr ((UnknownToken, Some err), \<lparr>row = 0, col = 5, source = '' y z '', tokenQueue = []\<rparr>)) \<and>
   (\<exists>err. expectToken TokenSquareBracketClose
            \<lparr>row = 0, col = 9, source = '' '', tokenQueue =
               [\<lparr>Token = \<lparr>Typ = TokenName, Value = ''z'',
                           Location = \<lparr>Col = 8, Row = 0, File = ''''\<rparr>\<rparr>, Error = None\<rparr>]\<rparr> =
          Inr ((UnknownToken, Some err), \<lparr>row = 0, col = 9, source = '' '', tokenQueue = []\<rparr>))"
proof -
  let ?x = "\<lparr>Typ = TokenName, Value = ''x'', Location = \<lparr>Col = 4, Row = 0, File = ''''\<rparr>\<rparr>"
  let ?z = "\<lparr>Typ = TokenName, Value = ''z'', Location = \<lparr>Col = 8, Row = 0, File = ''''\<rparr>\<rparr>"
  let ?foo = "\<lparr>Typ = TokenName, Value = ''Foo'', Location = \<lparr>Col = 0, Row = 0, File = ''''\<rparr>\<rparr>"
  let ?l1 = "\<lparr>row = 0, col = 3, source = '' x y z '', tokenQueue = []\<rparr>"
  let ?l2 = "\<lparr>row = 0, col = 5, source = '' y z '', tokenQueue = []\<rparr>"
  let ?l3 = "\<lparr>row = 0, col = 9, source = '' '', tokenQueue = [\<lparr>Token = ?z, Error = None\<rparr>]\<rparr>"
  let ?l4 = "\<lparr>row = 0, col = 9, source = '' '', tokenQueue = []\<rparr>"
  have h1: "Next (New ''Foo x y z '') = ((?foo, None), ?l1)" by code_simp
  have h2: "Typ ?foo = TokenName" by simp
  have h3: "Next ?l1 = ((?x, None), ?l2)" by code_simp
  have h4: "Typ ?x \<noteq> TokenUnknown" by simp
  have h5: "parseArgs ?l2 = Inr (Inr [VariableReferenceExpression ''y''], ?l3)" by code_simp
  have h6: "Next ?l3 = ((?z, None), ?l4)" by code_simp
  have h7: "Typ ?z \<noteq> TokenUnknown" by simp
  from parseCall_tolerates_brackets [OF h1 h2 h3 h4 h5 h6 h7]
  show ?thesis by simp
qed


section \<open>Assignments\<close>



section \<open>What the lexer does with a rune it does not know, and with a slash\<close>

lemma unrecognised_rune_is_EOF:
  assumes "\<not> IsLetter r" and "\<not> IsDigit r"
    and "r \<notin> {CHR ''='', CHR 0x0A, CHR 0x0B, CHR 0x0C, CHR 0x0D, CHR '' '', CHR 0x09,
               CHR 0x85, CHR 0xA0, CHR ''/'', CHR ''['', CHR '']'', CHR '',''}"
  shows "lexer_next (l\<lparr>source := r # rest\<rparr>) = ((UnknownToken, Some EOF), l\<lparr>source := rest\<rparr>)"
  using assms by (simp add: lexer_next_def next_loop.simps [of "l\<lparr>source := r # rest\<rparr>"] next_body_def)

text \<open>
  C2. The claim fails on the code. On the text \<open>@\<close> the lexer returns the unknown token
  with the error \<open>io.EOF\<close> and the text read to its end: the very result it returns on
  the empty text. The parser cannot tell the two apart, so \<open>Foo[] @ Bar[]\<close> compiles,
  without any error, to the output of \<open>Foo[]\<close> alone.
\<close>

theorem unknown_rune_reported_as_end_of_input:
  "lexer_next (New ''@'') =
     ((\<lparr>Typ = TokenUnknown, Value = ''<unknown>'', Location = \<lparr>Col = 0, Row = 0, File = ''''\<rparr>\<rparr>,
       Some EOF),
      \<lparr>row = 0, col = 0, source = '''', tokenQueue = []\<rparr>) \<and>
   lexer_next (New '''') =
     ((\<lparr>Typ = TokenUnknown, Value = ''<unknown>'', Location = \<lparr>Col = 0, Row = 0, File = ''''\<rparr>\<rparr>,
       Some EOF),
      \<lparr>row = 0, col = 0, source = '''', tokenQueue = []\<rparr>) \<and>
   compile ''Foo[] @ Bar[]'' = Inr ''Foo()'' \<and>
   compile ''Foo[]'' = Inr ''Foo()''"
  by code_simp

text \<open>
  C7. The claim fails on the code. A slash only sets the flag \<open>maybeComment\<close>, and no
  later rune clears it: on \<open>/a \<close> the lexer returns the name \<open>a\<close> with no error, and on
  \<open>/ / b\<close>, a newline and \<open>a \<close> the second slash, although not next to the first, starts
  a comment that hides \<open>b\<close>. So \<open>Foo[/ a]\<close> compiles to the output of \<open>Foo[a]\<close>.
\<close>

theorem lone_slash_skipped:
  "lexer_next (New ''/a '') =
     ((\<lparr>Typ = TokenName, Value = ''a'', Location = \<lparr>Col = 0, Row = 0, File = ''''\<rparr>\<rparr>, None),
      \<lparr>row = 0, col = 1, source = '' '', tokenQueue = []\<rparr>) \<and>
   lexer_next (New ''/ / b\<newline>a '') =
     ((\<lparr>Typ = TokenName, Value = ''a'', Location = \<lparr>Col = 1, Row = 0, File = ''''\<rparr>\<rparr>, None),
      \<lparr>row = 0, col = 2, source = '' '', tokenQueue = []\<rparr>) \<and>
   compile ''Foo[/ a]'' = Inr ''Foo(a)'' \<and>
   compile ''Foo[a]'' = Inr ''Foo(a)''"
  by code_simp

section \<open>An argument list cut off by the end of the input\<close>

text \<open>
  C6. On the text \<open>Foo[\<close> the parser has taken the name and the bracket when
  \<open>parseArgs\<close> asks \<open>MustPeek\<close> for a token; the lexer is at the end of the input, and
  \<open>MustPeek\<close> stops the process with \<open>log.Fatal(io.EOF)\<close>. No output is produced.
\<close>

theorem unterminated_call_is_fatal:
  "Parse (New ''Foo['') = Inl (LogFatalError EOF) \<and> compile ''Foo['' = Inl (LogFatalError EOF)"
  by code_simp

section \<open>No token of the lexer contains a colon\<close>

lemma next_body_clean:
  assumes "CHR '':'' \<notin> set name" and "CHR '':'' \<notin> set number"
  shows "case next_body l name number sn sm mc of
           Inl ((t, e), l') \<Rightarrow> cleanToken t
         | Inr (l', name', number', st) \<Rightarrow> CHR '':'' \<notin> set name' \<and> CHR '':'' \<notin> set number'"
proof (cases "source l")
  case Nil
  then show ?thesis by (simp add: next_body_def cleanToken_def UnknownToken_def)
next
  case (Cons r rest)
  obtain e rest' where rb: "ReadBytes (CHR 0x0A) rest = (e, rest')"
    by (cases "ReadBytes (CHR 0x0A) rest") auto
  have nl: "IsLetter r \<Longrightarrow> CHR '':'' \<noteq> r" by (auto simp: IsLetter_def)
  have nd: "IsDigit r \<Longrightarrow> CHR '':'' \<noteq> r" by (auto simp: IsDigit_def)
  from assms Cons rb nl nd show ?thesis
    by (simp add: next_body_def cleanToken_def UnknownToken_def split: option.split)
qed

lemma next_loop_clean:
  "CHR '':'' \<notin> set name \<Longrightarrow> CHR '':'' \<notin> set number \<Longrightarrow>
     next_loop l name number sn sm mc = ((t, e), l') \<Longrightarrow> cleanToken t"
proof (induction l name number sn sm mc rule: next_loop.induct)
  case (1 l name number sn sm mc)
  note nb = next_body_clean [OF "1.prems"(1,2), where l = l and sn = sn and sm = sm and mc = mc]
  show ?case
  proof (cases "next_body l name number sn sm mc")
    case (Inl res)
    with "1.prems"(3) have "res = ((t, e), l')" by (subst (asm) next_loop.simps) simp
    with Inl nb show ?thesis by simp
  next
    case (Inr st)
    obtain l1 name1 number1 sn1 sm1 mc1 where st: "st = (l1, name1, number1, sn1, sm1, mc1)"
      by (cases st) auto
    from "1.prems"(3) Inr st have nl: "next_loop l1 name1 number1 sn1 sm1 mc1 = ((t, e), l')"
      by (subst (asm) next_loop.simps) simp
    from nb Inr st have "CHR '':'' \<notin> set name1" "CHR '':'' \<notin> set number1" by simp_all
    from "1.IH" [OF Inr [unfolded st] refl refl refl refl refl this nl] show ?thesis .
  qed
qed

lemma lognext_clean: "lognext l = ((t, e), l1) \<Longrightarrow> cleanToken t"
  using next_loop_clean [of "[]" "[]" l False False False t e l1]
  by (simp add: lognext_def lexer_next_def)

lemma fillQueue_clean: "cleanLexer l \<Longrightarrow> cleanLexer (fillQueue n l)"
proof (induction n arbitrary: l)
  case 0
  then show ?case by simp
next
  case (Suc n)
  obtain t e l1 where ln: "lognext l = ((t, e), l1)" by (metis surj_pair)
  from lognext_effect(1) [OF ln] lognext_clean [OF ln] Suc.prems
  have "cleanLexer (l1\<lparr>tokenQueue := tokenQueue l1 @ [\<lparr>Token = t, Error = e\<rparr>]\<rparr>)"
    by (simp add: cleanLexer_def)
  from Suc.IH [OF this] ln show ?case by simp
qed

lemma Peek_clean:
  assumes "cleanLexer l" and "Peek k l = Inr ((t, e), l1)"
  shows "cleanLexer l1" and "cleanToken t"
  using fillQueue_clean [OF assms(1), of "k - length (tokenQueue l)"] assms(2)
  by (auto simp: Peek_def Let_def cleanLexer_def list_all_length split: if_splits)

lemma MustPeek_clean:
  assumes "cleanLexer l" and "MustPeek k l = Inr (t, l1)"
  shows "cleanLexer l1" and "cleanToken t"
  using fillQueue_clean [OF assms(1), of "k - length (tokenQueue l)"] assms(2)
  by (auto simp: MustPeek_def Let_def cleanLexer_def list_all_length
           split: if_splits option.splits)

lemma Consume_clean: "cleanLexer l \<Longrightarrow> Consume l = Inr l1 \<Longrightarrow> cleanLexer l1"
  by (cases "tokenQueue l") (auto simp: Consume_def cleanLexer_def split: if_splits)

lemma Next_clean:
  assumes "cleanLexer l" and "Next l = ((t, e), l1)"
  shows "cleanLexer l1" and "cleanToken t"
proof -
  show "cleanLexer l1"
  proof (cases "tokenQueue l")
    case Nil
    with assms(2) have "lognext l = ((t, e), l1)" by (simp add: Next_def)
    from lognext_effect(1) [OF this] assms(1) show ?thesis by (simp add: cleanLexer_def)
  next
    case (Cons a as)
    with assms show ?thesis by (auto simp: Next_def cleanLexer_def Let_def)
  qed
  show "cleanToken t"
  proof (cases "tokenQueue l")
    case Nil
    with assms(2) have "lognext l = ((t, e), l1)" by (simp add: Next_def)
    from lognext_clean [OF this] show ?thesis .
  next
    case (Cons a as)
    with assms show ?thesis by (auto simp: Next_def cleanLexer_def Let_def)
  qed
qed

lemma expectToken_clean:
  assumes "cleanLexer l" and "expectToken tt l = Inr ((t, e), l1)"
  shows "cleanLexer l1" and "cleanToken t"
proof -
  obtain t0 e0 l0 where n: "Next l = ((t0, e0), l0)" by (metis surj_pair)
  from assms(2) n have "l0 = l1" and "t = t0 \<or> t = UnknownToken"
    by (auto simp: expectToken_def split: option.splits if_splits sum.splits)
  with Next_clean [OF assms(1) n] show "cleanLexer l1" and "cleanToken t"
    by (auto simp: cleanToken_def UnknownToken_def)
qed

section \<open>No name or numeral of a parsed program contains a colon\<close>

lemma parse_clean:
  shows "cleanLexer l1 \<Longrightarrow> parseCall l1 = Inr (r1, m1) \<Longrightarrow>
           cleanLexer m1 \<and> (\<forall>e. r1 = Inr e \<longrightarrow> colonFree e)"
    and "cleanLexer l2 \<Longrightarrow> parseAssignment l2 = Inr (r2, m2) \<Longrightarrow>
           cleanLexer m2 \<and> (\<forall>e. r2 = Inr e \<longrightarrow> colonFree e)"
    and "cleanLexer l3 \<Longrightarrow> parseExpression l3 = Inr (r3, m3) \<Longrightarrow>
           cleanLexer m3 \<and> (\<forall>e. r3 = Inr e \<longrightarrow> colonFree e)"
    and "cleanLexer l4 \<Longrightarrow> parseArgs l4 = Inr (r4, m4) \<Longrightarrow>
           cleanLexer m4 \<and> (\<forall>es. r4 = Inr es \<longrightarrow> list_all colonFree es)"
    and "list_all colonFree args \<Longrightarrow> cleanLexer l5 \<Longrightarrow> parseArgs_loop args l5 = Inr (r5, m5) \<Longrightarrow>
           cleanLexer m5 \<and> (\<forall>es. r5 = Inr es \<longrightarrow> list_all colonFree es)"
proof (induct l1 and l2 and l3 and l4 and args l5
    arbitrary: r1 m1 and r2 m2 and r3 m3 and r4 m4 and r5 m5
    rule: parseCall_parseAssignment_parseExpression_parseArgs_parseArgs_loop.induct)
  case (1 l)
  note cl = "1.prems"(1) and res = "1.prems"(2)
  note simps = parseCall.simps [of l]
  show ?case
  proof (cases "expectToken TokenName l")
    case (Inl f)
    with res show ?thesis by (auto simp: simps)
  next
    case (Inr a0)
    then obtain called e1 l1 where a: "expectToken TokenName l = Inr ((called, e1), l1)"
      by (metis surj_pair)
    from expectToken_clean [OF cl a] have cl1: "cleanLexer l1" and ct: "cleanToken called" .
    show ?thesis
    proof (cases e1)
      case (Some err)
      with res a cl1 show ?thesis by (auto simp: simps)
    next
      case None
      note a = a [unfolded None]
      show ?thesis
      proof (cases "expectToken TokenSquareBracketOpen l1")
        case (Inl f)
        with res a show ?thesis by (auto simp: simps)
      next
        case (Inr b0)
        then obtain t2 e2 l2
          where b: "expectToken TokenSquareBracketOpen l1 = Inr ((t2, e2), l2)"
          by (metis surj_pair)
        from expectToken_clean(1) [OF cl1 b] have cl2: "cleanLexer l2" .
        show ?thesis
        proof (cases "parseArgs l2")
          case (Inl f)
          with res a b show ?thesis by (auto simp: simps)
        next
          case (Inr c0)
          then obtain r3 l3 where c: "parseArgs l2 = Inr (r3, l3)" by (metis surj_pair)
          from "1.hyps" [OF a refl refl refl b refl cl2 c]
          have cl3: "cleanLexer l3" and ca: "\<forall>es. r3 = Inr es \<longrightarrow> list_all colonFree es"
            by simp_all
          show ?thesis
          proof (cases r3)
            case (Inl err)
            with res a b c cl3 show ?thesis by (auto simp: simps)
          next
            case (Inr args)
            note c = c [unfolded Inr]
            from ca Inr have cargs: "list_all colonFree args" by simp
            show ?thesis
            proof (cases "expectToken TokenSquareBracketClose l3")
              case (Inl f)
              with res a b c show ?thesis by (auto simp: simps)
            next
              case (Inr d0)
              then obtain t4 e4 l4
                where d: "expectToken TokenSquareBracketClose l3 = Inr ((t4, e4), l4)"
                by (metis surj_pair)
              from expectToken_clean(1) [OF cl3 d] have cl4: "cleanLexer l4" .
              from res a b c d cl4 cargs ct show ?thesis
                by (auto simp: simps cleanToken_def)
            qed
          qed
        qed
      qed
    qed
  qed
next
  case (2 l)
  note cl = "2.prems"(1) and res = "2.prems"(2)
  note simps = parseAssignment.simps [of l]
  show ?case
  proof (cases "expectToken TokenName l")
    case (Inl f)
    with res show ?thesis by (auto simp: simps)
  next
    case (Inr a0)
    then obtain lhs e1 l1 where a: "expectToken TokenName l = Inr ((lhs, e1), l1)"
      by (metis surj_pair)
    from expectToken_clean [OF cl a] have cl1: "cleanLexer l1" and ct: "cleanToken lhs" .
    show ?thesis
    proof (cases e1)
      case (Some err)
      with res a cl1 show ?thesis by (auto simp: simps)
    next
      case None
      note a = a [unfolded None]
      show ?thesis
      proof (cases "expectToken TokenEquals l1")
        case (Inl f)
        with res a show ?thesis by (auto simp: simps)
      next
        case (Inr b0)
        then obtain t2 e2 l2 where b: "expectToken TokenEquals l1 = Inr ((t2, e2), l2)"
          by (metis surj_pair)
        from expectToken_clean(1) [OF cl1 b] have cl2: "cleanLexer l2" .
        show ?thesis
        proof (cases "parseExpression l2")
          case (Inl f)
          with res a b show ?thesis by (auto simp: simps)
        next
          case (Inr c0)
          then obtain r3 l3 where c: "parseExpression l2 = Inr (r3, l3)" by (metis surj_pair)
          from "2.hyps" [OF a refl refl refl b refl cl2 c]
          have cl3: "cleanLexer l3" and ca: "\<forall>e. r3 = Inr e \<longrightarrow> colonFree e"
            by simp_all
          show ?thesis
          proof (cases r3)
            case (Inl err)
            with res a b c cl3 show ?thesis by (auto simp: simps)
          next
            case (Inr rhs)
            with res a b c cl3 ca ct show ?thesis
              by (auto simp: simps cleanToken_def)
          qed
        qed
      qed
    qed
  qed
next
  case (3 l)
  note cl = "3.prems"(1) and res = "3.prems"(2)
  note simps = parseExpression.simps [of l]
  show ?case
  proof (cases "Peek 1 l")
    case (Inl f)
    with res show ?thesis by (auto simp: simps simp del: One_nat_def)
  next
    case (Inr a0)
    then obtain token e1 l1 where a: "Peek 1 l = Inr ((token, e1), l1)"
      by (metis surj_pair)
    from Peek_clean [OF cl a] have cl1: "cleanLexer l1" and ct: "cleanToken token" .
    show ?thesis
    proof (cases e1)
      case (Some err)
      with res a cl1 show ?thesis by (auto simp: simps simp del: One_nat_def)
    next
      case None
      note a = a [unfolded None]
      consider (name) "Typ token = TokenName" | (number) "Typ token = TokenNumber"
        | (other) "Typ token \<noteq> TokenName" "Typ token \<noteq> TokenNumber" by blast
      then show ?thesis
      proof cases
        case other
        with res a cl1 show ?thesis by (auto simp: simps simp del: One_nat_def)
      next
        case number
        show ?thesis
        proof (cases "Consume l1")
          case (Inl f)
          with res a number show ?thesis by (auto simp: simps simp del: One_nat_def)
        next
          case (Inr l2)
          from Consume_clean [OF cl1 Inr] have "cleanLexer l2" .
          with res a number Inr ct show ?thesis
            by (auto simp: simps cleanToken_def simp del: One_nat_def)
        qed
      next
        case name
        show ?thesis
        proof (cases "Peek 2 l1")
          case (Inl f)
          with res a name show ?thesis by (auto simp: simps simp del: One_nat_def)
        next
          case (Inr b0)
          then obtain t2 e2 l2 where b: "Peek 2 l1 = Inr ((t2, e2), l2)" by (metis surj_pair)
          from Peek_clean(1) [OF cl1 b] have cl2: "cleanLexer l2" .
          show ?thesis
          proof (cases "e2 = None \<and> Typ t2 = TokenSquareBracketOpen")
            case True
            with res a name b have c: "parseCall l2 = Inr (r3, m3)"
              by (auto simp: simps simp del: One_nat_def)
            from True have e2: "e2 = None" and t2: "Typ t2 = TokenSquareBracketOpen"
              by simp_all
            from "3.hyps"(1) [OF a refl refl refl name b [unfolded e2] refl refl _ cl2 c] t2
            show ?thesis by simp
          next
            case False
            show ?thesis
            proof (cases "Peek 2 l2")
              case (Inl f)
              with res a name b False show ?thesis
                by (auto simp: simps simp del: One_nat_def)
            next
              case (Inr c0)
              then obtain t3 e3 l3 where c: "Peek 2 l2 = Inr ((t3, e3), l3)"
                by (metis surj_pair)
              from Peek_clean(1) [OF cl2 c] have cl3: "cleanLexer l3" .
              show ?thesis
              proof (cases "e3 = None \<and> Typ t3 = TokenEquals")
                case True
                with res a name b False c have d: "parseAssignment l3 = Inr (r3, m3)"
                  by (auto simp: simps simp del: One_nat_def)
                from True have e3: "e3 = None" and t3: "Typ t3 = TokenEquals" by simp_all
                from "3.hyps"(2) [OF a refl refl refl name b refl refl False c [unfolded e3]
                    refl refl _ cl3 d] t3
                show ?thesis by simp
              next
                case notEq: False
                show ?thesis
                proof (cases "Consume l3")
                  case (Inl f)
                  with res a name b False c notEq show ?thesis
                    by (auto simp: simps simp del: One_nat_def)
                next
                  case (Inr l4)
                  from Consume_clean [OF cl3 Inr] have "cleanLexer l4" .
                  with res a name b False c notEq Inr ct show ?thesis
                    by (auto simp: simps cleanToken_def simp del: One_nat_def)
                qed
              qed
            qed
          qed
        qed
      qed
    qed
  qed
next
  case (4 l)
  note cl = "4.prems"(1) and res = "4.prems"(2)
  note simps = parseArgs.simps [of l]
  show ?case
  proof (cases "MustPeek 1 l")
    case (Inl f)
    with res show ?thesis by (auto simp: simps simp del: One_nat_def)
  next
    case (Inr a0)
    then obtain token l1 where a: "MustPeek 1 l = Inr (token, l1)" by (metis surj_pair)
    from MustPeek_clean(1) [OF cl a] have cl1: "cleanLexer l1" .
    show ?thesis
    proof (cases "Typ token \<noteq> TokenSquareBracketClose")
      case False
      with res a cl1 show ?thesis by (auto simp: simps simp del: One_nat_def)
    next
      case True
      show ?thesis
      proof (cases "parseExpression l1")
        case (Inl f)
        with res a True show ?thesis by (auto simp: simps simp del: One_nat_def)
      next
        case (Inr b0)
        then obtain r2 l2 where b: "parseExpression l1 = Inr (r2, l2)" by (metis surj_pair)
        from "4.hyps"(1) [OF a refl True cl1 b]
        have cl2: "cleanLexer l2" and ce: "\<forall>e. r2 = Inr e \<longrightarrow> colonFree e" by simp_all
        show ?thesis
        proof (cases r2)
          case (Inl err)
          with res a True b cl2 show ?thesis by (auto simp: simps simp del: One_nat_def)
        next
          case (Inr e)
          note b = b [unfolded Inr]
          from ce Inr have "list_all colonFree [e]" by simp
          moreover from res a True b have "parseArgs_loop [e] l2 = Inr (r4, m4)"
            by (auto simp: simps simp del: One_nat_def)
          ultimately show ?thesis
            using "4.hyps"(2) [OF a refl True b refl refl _ cl2] by blast
        qed
      qed
    qed
  qed
next
  case (5 args l)
  note ca = "5.prems"(1) and cl = "5.prems"(2) and res = "5.prems"(3)
  note simps = parseArgs_loop.simps [of args l]
  show ?case
  proof (cases "Peek 1 l")
    case (Inl f)
    with res show ?thesis by (auto simp: simps simp del: One_nat_def)
  next
    case (Inr a0)
    then obtain token e1 l1 where a: "Peek 1 l = Inr ((token, e1), l1)"
      by (metis surj_pair)
    from Peek_clean(1) [OF cl a] have cl1: "cleanLexer l1" .
    show ?thesis
    proof (cases e1)
      case (Some err)
      with res a cl1 show ?thesis by (auto simp: simps simp del: One_nat_def)
    next
      case None
      note a = a [unfolded None]
      show ?thesis
      proof (cases "Typ token = TokenComma")
        case False
        with res a cl1 ca show ?thesis by (auto simp: simps simp del: One_nat_def)
      next
        case True
        show ?thesis
        proof (cases "Consume l1")
          case (Inl f)
          with res a True show ?thesis by (auto simp: simps simp del: One_nat_def)
        next
          case (Inr l2)
          note b = Inr
          from Consume_clean [OF cl1 b] have cl2: "cleanLexer l2" .
          show ?thesis
          proof (cases "parseExpression l2")
            case (Inl f)
            with res a True b show ?thesis by (auto simp: simps simp del: One_nat_def)
          next
            case (Inr c0)
            then obtain r3 l3 where c: "parseExpression l2 = Inr (r3, l3)"
              by (metis surj_pair)
            from "5.hyps"(1) [OF a refl refl refl True b cl2 c]
            have cl3: "cleanLexer l3" and ce: "\<forall>e. r3 = Inr e \<longrightarrow> colonFree e"
              by simp_all
            show ?thesis
            proof (cases r3)
              case (Inl err)
              with res a True b c cl3 show ?thesis by (auto simp: simps simp del: One_nat_def)
            next
              case (Inr e)
              note c = c [unfolded Inr]
              from ce Inr ca have "list_all colonFree (args @ [e])" by simp
              moreover from res a True b c
              have "parseArgs_loop (args @ [e]) l3 = Inr (r5, m5)"
                by (auto simp: simps simp del: One_nat_def)
              ultimately show ?thesis
                using "5.hyps"(2) [OF a refl refl refl True b c refl refl _ cl3] by blast
            qed
          qed
        qed
      qed
    qed
  qed
qed

lemma Parse_loop_clean:
  "list_all colonFree expressions \<Longrightarrow> cleanLexer l \<Longrightarrow>
     Parse_loop expressions l = Inr (BlockStatement es, l') \<Longrightarrow> list_all colonFree es"
proof (induction expressions l rule: Parse_loop.induct)
  case (1 expressions l)
  note ce = "1.prems"(1) and cl = "1.prems"(2) and res = "1.prems"(3)
  note simps = Parse_loop.simps [of expressions l]
  show ?case
  proof (cases "parseCall l")
    case (Inl f)
    with res show ?thesis by (auto simp: simps)
  next
    case (Inr a0)
    then obtain r1 l1 where a: "parseCall l = Inr (r1, l1)" by (metis surj_pair)
    from parse_clean(1) [OF cl a]
    have cl1: "cleanLexer l1" and c1: "\<forall>e. r1 = Inr e \<longrightarrow> colonFree e" by simp_all
    show ?thesis
    proof (cases r1)
      case (Inl err)
      with res a ce show ?thesis by (auto simp: simps split: if_splits)
    next
      case (Inr e)
      note a = a [unfolded Inr]
      from c1 Inr ce have "list_all colonFree (expressions @ [e])" by simp
      moreover from res a have "Parse_loop (expressions @ [e]) l1 = Inr (BlockStatement es, l')"
        by (auto simp: simps)
      ultimately show ?thesis using "1.IH" [OF a refl refl _ cl1] by blast
    qed
  qed
qed

text \<open>
  Whatever the source text, the names and numerals of the program that \<open>Parse\<close> returns
  contain no colon.
\<close>

lemma Parse_colonFree: "Parse (New src) = Inr (BlockStatement es, l) \<Longrightarrow> list_all colonFree es"
  using Parse_loop_clean [of "[]" "New src" es l]
  by (simp add: Parse_def New_def cleanLexer_def)

section \<open>The flag of the assoc helper\<close>

lemma argsRenderAssoc_iff: "argsRenderAssoc es = (\<exists>e\<in>set es. rendersAssoc e)"
  by (induction es) auto

lemma rendersAssoc_nth: "i < length es \<Longrightarrow> rendersAssoc (es ! i) \<Longrightarrow> argsRenderAssoc es"
  by (auto simp: argsRenderAssoc_iff)

text \<open>
  When a rendering returns, the flag \<open>usingAssocBuiltin\<close> is set if and only if it was
  set before or the rendering came to one of the three forms.
\<close>

lemma assoc_flag:
  "printExpression p e = Inr (s, p') \<Longrightarrow>
     usingAssocBuiltin p' = (usingAssocBuiltin p \<or> rendersAssoc e)"
  "printArgs p es = Inr (ss, p') \<Longrightarrow>
     usingAssocBuiltin p' = (usingAssocBuiltin p \<or> argsRenderAssoc es)"
  "letParams p es = Inr (ss, p') \<Longrightarrow>
     usingAssocBuiltin p' = (usingAssocBuiltin p \<or> letRendersAssoc es)"
  "defParams p es = Inr (ss, p') \<Longrightarrow>
     usingAssocBuiltin p' = (usingAssocBuiltin p \<or> defRendersAssoc es)"
proof (induction p e and p es and p es and p es arbitrary: s p' and ss p' and ss p' and ss p'
       rule: printExpression_printArgs_letParams_defParams.induct)
  case (4 p eargs call)
  show ?case
  proof (cases "printArgs p eargs")
    case (Inl f)
    with "4.prems" show ?thesis by simp
  next
    case (Inr b)
    obtain args p1 where b: "b = (args, p1)" by (cases b)
    note pa = Inr [unfolded b]
    from "4.IH"(1) [OF pa]
    have f1: "usingAssocBuiltin p1 = (usingAssocBuiltin p \<or> argsRenderAssoc eargs)" .
    consider (Let) "call = ''Let''" | (Cond) "call = ''Cond''" | (Def) "call = ''Def''"
      | (other) "call \<noteq> ''Let''" "call \<noteq> ''Cond''" "call \<noteq> ''Def''" by blast
    then show ?thesis
    proof cases
      case other
      with "4.prems" pa f1 show ?thesis by (auto split: if_splits)
    next
      case Let
      from "4.prems" pa Let obtain params p2
        where lp: "letParams p1 (take (length eargs - 1) eargs) = Inr (params, p2)"
        by (auto split: sum.splits)
      from "4.prems" pa Let lp obtain body
        where ne: "eargs \<noteq> []"
          and bd: "printExpression p2 (eargs ! (length eargs - 1)) = Inr (body, p')"
        by (auto split: sum.splits if_splits)
      from "4.IH"(2) [OF pa refl _ Let lp] Let
      have f2: "usingAssocBuiltin p2 =
                  (usingAssocBuiltin p1 \<or> letRendersAssoc (take (length eargs - 1) eargs))"
        by simp
      from "4.IH"(3) [OF pa refl _ Let lp refl ne bd] Let
      have f3: "usingAssocBuiltin p' =
                  (usingAssocBuiltin p2 \<or> rendersAssoc (eargs ! (length eargs - 1)))"
        by simp
      from ne have "length eargs - 1 < length eargs" by (cases eargs) auto
      note in_args = rendersAssoc_nth [OF this]
      have "rendersAssoc (CallExpression eargs call) =
              (argsRenderAssoc eargs \<or> letRendersAssoc (take (length eargs - 1) eargs))"
        using Let by simp
      with in_args f1 f2 f3 show ?thesis by blast
    next
      case Cond
      from "4.prems" pa Cond have n2: "\<not> length eargs < 2" by (auto split: if_splits)
      from "4.prems" pa Cond n2 obtain t p2
        where r1: "printExpression p1 (eargs ! 1) = Inr (t, p2)"
        by (auto split: sum.splits)
      from "4.prems" pa Cond n2 r1 obtain c p3
        where r0: "printExpression p2 (eargs ! 0) = Inr (c, p3)"
        by (auto split: sum.splits)
      from "4.prems" pa Cond n2 r1 r0 have n3: "\<not> length eargs < 3"
        by (auto split: if_splits)
      from "4.prems" pa Cond n2 r1 r0 n3 obtain e
        where r2: "printExpression p3 (eargs ! 2) = Inr (e, p')"
        by (auto split: sum.splits)
      have c: "call \<noteq> ''Print''" "call \<noteq> ''Let''" "call \<noteq> ''HashMap''" "call \<noteq> ''Map''"
        "call \<noteq> ''List''" "call \<noteq> ''Call''" "call \<noteq> ''Assoc''" "call \<noteq> ''Has''"
        "call \<noteq> ''Get''" using Cond by simp_all
      note ih = "4.IH"(4-6) [OF pa refl c Cond n2]
      from ih(1) [OF r1] have f2: "usingAssocBuiltin p2 = (usingAssocBuiltin p1 \<or> rendersAssoc (eargs ! 1))" .
      from ih(2) [OF r1 refl r0]
      have f3: "usingAssocBuiltin p3 = (usingAssocBuiltin p2 \<or> rendersAssoc (eargs ! 0))" .
      from ih(3) [OF r1 refl r0 refl n3 r2]
      have f4: "usingAssocBuiltin p' = (usingAssocBuiltin p3 \<or> rendersAssoc (eargs ! 2))" .
      from n3 have "0 < length eargs" "1 < length eargs" "2 < length eargs" by auto
      note in_args = this [THEN rendersAssoc_nth]
      have "rendersAssoc (CallExpression eargs call) = argsRenderAssoc eargs"
        using Cond by simp
      with in_args f1 f2 f3 f4 show ?thesis by blast
    next
      case Def
      have c: "call \<noteq> ''Print''" "call \<noteq> ''Let''" "call \<noteq> ''HashMap''" "call \<noteq> ''Map''"
        "call \<noteq> ''List''" "call \<noteq> ''Call''" "call \<noteq> ''Assoc''" "call \<noteq> ''Has''"
        "call \<noteq> ''Get''" "call \<noteq> ''Cond''" using Def by simp_all
      from "4.prems" pa Def have n1: "\<not> length eargs < 1" by (auto split: if_splits)
      note ih = "4.IH"(7-9) [OF pa refl c Def n1]
      show ?thesis
      proof (cases "eargs ! 0")
        case (VariableReferenceExpression defname)
        show ?thesis
        proof (cases "2 < length eargs")
          case False
          with "4.prems" pa Def n1 VariableReferenceExpression f1 show ?thesis by auto
        next
          case True
          let ?params = "case eargs ! 1 of
                           CallExpression pargs pcall \<Rightarrow>
                             if pcall = ''Args'' then defParams p1 pargs else Inr ([], p1)
                         | _ \<Rightarrow> Inr ([], p1)"
          from "4.prems" pa Def n1 VariableReferenceExpression True obtain params p2
            where dp: "?params = Inr (params, p2)"
            by (auto split: sum.splits)
          from "4.prems" pa Def n1 VariableReferenceExpression True dp obtain body
            where bd: "printExpression p2 (eargs ! 2) = Inr (body, p')"
            by (auto split: sum.splits)
          from ih(2) [OF VariableReferenceExpression True dp refl bd]
          have f3: "usingAssocBuiltin p' = (usingAssocBuiltin p2 \<or> rendersAssoc (eargs ! 2))" .
          have f2: "usingAssocBuiltin p2 =
                      (usingAssocBuiltin p1 \<or>
                       (case eargs ! 1 of
                          CallExpression pargs pcall \<Rightarrow>
                            if pcall = ''Args'' then defRendersAssoc pargs else False
                        | _ \<Rightarrow> False))"
          proof (cases "eargs ! 1")
            case (CallExpression pargs pcall)
            show ?thesis
            proof (cases "pcall = ''Args''")
              case True
              with dp CallExpression have "defParams p1 pargs = Inr (params, p2)" by simp
              from ih(1) [OF VariableReferenceExpression \<open>2 < length eargs\<close> CallExpression True this]
              show ?thesis using CallExpression True by simp
            next
              case False
              with dp CallExpression show ?thesis by simp
            qed
          qed (use dp in auto)
          from True have "2 < length eargs" .
          note in_args = rendersAssoc_nth [OF this]
          have "rendersAssoc (CallExpression eargs call) =
                  (argsRenderAssoc eargs \<or>
                   (case eargs ! 1 of
                      CallExpression pargs pcall \<Rightarrow>
                        if pcall = ''Args'' then defRendersAssoc pargs else False
                    | _ \<Rightarrow> False))"
            using Def n1 VariableReferenceExpression True by simp
          with in_args f1 f2 f3 show ?thesis by blast
        qed
      next
        case (AssignmentExpression lhs rhs)
        from "4.prems" pa Def n1 AssignmentExpression obtain name
          where av: "assertVariableReference lhs = Inr name"
          by (auto split: sum.splits)
        from "4.prems" pa Def n1 AssignmentExpression av obtain v
          where r: "printExpression p1 rhs = Inr (v, p')"
          by (auto split: sum.splits)
        from ih(3) [OF AssignmentExpression av r]
        have f2: "usingAssocBuiltin p' = (usingAssocBuiltin p1 \<or> rendersAssoc rhs)" .
        have "rendersAssoc (CallExpression eargs call) = (argsRenderAssoc eargs \<or> rendersAssoc rhs)"
          using Def n1 AssignmentExpression by simp
        with f1 f2 show ?thesis by blast
      next
        case (LiteralNumberExpression v)
        with "4.prems" pa Def n1 f1 show ?thesis by auto
      next
        case (CallExpression a c)
        with "4.prems" pa Def n1 f1 show ?thesis by auto
      qed
    qed
  qed
next
  case (6 p a as)
  from "6.prems" obtain s1 p1 where pe: "printExpression p a = Inr (s1, p1)"
    by (auto split: sum.splits)
  from "6.prems" pe obtain ss1 where pas: "printArgs p1 as = Inr (ss1, p')"
    by (auto split: sum.splits)
  from "6.IH"(1) [OF pe] "6.IH"(2) [OF pe refl pas] show ?case by auto
next
  case (8 p lhs rhs as)
  from "8.prems" obtain variable where av: "assertVariableReference lhs = Inr variable"
    by (auto split: sum.splits)
  from "8.prems" av obtain val p1 where pe: "printExpression p rhs = Inr (val, p1)"
    by (auto split: sum.splits)
  from "8.prems" av pe obtain params where lp: "letParams p1 as = Inr (params, p')"
    by (auto split: sum.splits)
  from "8.IH"(1) [OF av pe] "8.IH"(2) [OF av pe refl lp] show ?case by auto
next
  case (9 p v as)
  from "9.prems" obtain params where "letParams p as = Inr (params, p')"
    by (auto split: sum.splits)
  from "9.IH" [OF this] show ?case by simp
next
  case "10_1"
  then show ?case by simp
next
  case "10_2"
  then show ?case by simp
next
  case (12 p argname as)
  from "12.prems" obtain params where "defParams p as = Inr (params, p')"
    by (auto split: sum.splits)
  from "12.IH" [OF this] show ?case by simp
next
  case (13 p sargs scall as)
  show ?case
  proof (cases "scall = ''Args''")
    case True
    from "13.prems" True obtain sub p1 where pa: "printArgs p sargs = Inr (sub, p1)"
      by (auto split: sum.splits)
    from "13.prems" True pa obtain params where dp: "defParams p1 as = Inr (params, p')"
      by (auto split: sum.splits)
    from "13.IH"(1) [OF True pa] "13.IH"(2) [OF True pa refl dp] True show ?thesis by auto
  next
    case False
    show ?thesis
    proof (cases "scall = ''HashMap''")
      case True
      from "13.prems" False True have n: "\<not> 1 < length sargs" "\<not> length sargs < 1"
        by (auto split: if_splits)
      from "13.prems" False True n obtain name where av: "assertVariableReference (sargs ! 0) = Inr name"
        by (auto split: sum.splits)
      from "13.prems" False True n av obtain params where dp: "defParams p as = Inr (params, p')"
        by (auto split: sum.splits)
      from "13.IH"(3) [OF False True n av dp] False show ?thesis by simp
    next
      case notHashMap: False
      from "13.prems" False notHashMap have dp: "defParams p as = Inr (ss, p')" by simp
      from "13.IH"(4) [OF False notHashMap dp] False show ?thesis by simp
    qed
  qed
next
  case (14 p lhs rhs as)
  from "14.prems" obtain name where av: "assertVariableReference lhs = Inr name"
    by (auto split: sum.splits)
  from "14.prems" av obtain v p1 where pe: "printExpression p rhs = Inr (v, p1)"
    by (auto split: sum.splits)
  from "14.prems" av pe obtain params where dp: "defParams p1 as = Inr (params, p')"
    by (auto split: sum.splits)
  from "14.IH"(1) [OF av pe] "14.IH"(2) [OF av pe refl dp] show ?case by auto
next
  case (15 p v as)
  from "15.prems" have "defParams p as = Inr (ss, p')" by simp
  from "15.IH" [OF this] show ?case by simp
qed auto

text \<open>A rendering comes to one of the three forms only if the form occurs in the program.\<close>

lemma rendersAssoc_mentions:
  "rendersAssoc e \<Longrightarrow> mentionsAssoc e"
  "argsRenderAssoc es \<Longrightarrow> list_ex mentionsAssoc es"
  "letRendersAssoc es \<Longrightarrow> list_ex mentionsAssoc es"
  "defRendersAssoc es \<Longrightarrow> list_ex mentionsAssoc es"
proof (induction e and es and es and es
       rule: rendersAssoc_argsRenderAssoc_letRendersAssoc_defRendersAssoc.induct)
  case (4 eargs call)
  show ?case
  proof (cases "argsRenderAssoc eargs")
    case True
    from "4.IH"(1) [OF this] show ?thesis by simp
  next
    case noArgs: False
    show ?thesis
    proof (cases "call = ''Assoc'' \<or> call = ''Has'' \<or> call = ''Get''")
      case True
      then show ?thesis by auto
    next
      case notForm: False
      show ?thesis
      proof (cases "call = ''Let''")
        case True
        with "4.prems" noArgs notForm
        have "letRendersAssoc (take (length eargs - 1) eargs)" by simp
        from "4.IH"(2) [OF noArgs notForm True this]
        have "list_ex mentionsAssoc eargs" by (auto simp: list_ex_iff dest: in_set_takeD)
        then show ?thesis by simp
      next
        case notLet: False
        with "4.prems" noArgs notForm have def: "call = ''Def'' \<and> 0 < length eargs"
          by (auto split: if_splits)
        then have len0: "0 < length eargs" by simp
        show ?thesis
        proof (cases "eargs ! 0")
          case (VariableReferenceExpression defname)
          with "4.prems" noArgs notForm notLet def have len2: "2 < length eargs"
            by (auto split: if_splits)
          with "4.prems" noArgs notForm notLet def VariableReferenceExpression
          obtain pargs pcall where c: "eargs ! 1 = CallExpression pargs pcall"
            and a: "pcall = ''Args''" and r: "defRendersAssoc pargs"
            by (auto split: if_splits Expression.splits)
          from "4.IH"(3) [OF noArgs notForm notLet def VariableReferenceExpression len2 c a r]
          have "mentionsAssoc (CallExpression pargs pcall)" by simp
          then have "mentionsAssoc (eargs ! 1)" by (simp only: c)
          moreover from len2 have "eargs ! 1 \<in> set eargs" by simp
          ultimately have "list_ex mentionsAssoc eargs" by (auto simp: list_ex_iff)
          then show ?thesis by simp
        next
          case (AssignmentExpression lhs rhs)
          with "4.prems" noArgs notForm notLet def have r: "rendersAssoc rhs"
            by (auto split: if_splits)
          from "4.IH"(4) [OF noArgs notForm notLet def AssignmentExpression r]
          have "mentionsAssoc (AssignmentExpression lhs rhs)" by simp
          then have "mentionsAssoc (eargs ! 0)" by (simp only: AssignmentExpression)
          moreover from len0 have "eargs ! 0 \<in> set eargs" by simp
          ultimately have "list_ex mentionsAssoc eargs" by (auto simp: list_ex_iff)
          then show ?thesis by simp
        next
          case (LiteralNumberExpression v)
          with "4.prems" noArgs notForm notLet def show ?thesis by (auto split: if_splits)
        next
          case (CallExpression a c)
          with "4.prems" noArgs notForm notLet def show ?thesis by (auto split: if_splits)
        qed
      qed
    qed
  qed
qed (auto split: if_splits)

section \<open>Colons in the rendered text\<close>

lemma colonsSpaced_append: "colonsSpaced a \<Longrightarrow> colonsSpaced b \<Longrightarrow> colonsSpaced (a @ b)"
proof (induction a rule: colonsSpaced.induct)
  case (2 c)
  then show ?case by (cases b) auto
qed auto

lemma colonsSpaced_colonless: "CHR '':'' \<notin> set s \<Longrightarrow> colonsSpaced s"
  by (induction s rule: colonsSpaced.induct) auto

lemma colonsSpaced_Join:
  "list_all colonsSpaced xs \<Longrightarrow> colonsSpaced sep \<Longrightarrow> colonsSpaced (Join xs sep)"
  by (induction xs sep rule: Join.induct) (auto intro: colonsSpaced_append)

lemma colonsSpaced_nth:
  "colonsSpaced t \<Longrightarrow> j < length t \<Longrightarrow> t ! j = CHR '':'' \<Longrightarrow>
     Suc j < length t \<and> t ! Suc j = CHR '' ''"
proof (induction t arbitrary: j rule: colonsSpaced.induct)
  case (3 c d cs)
  show ?case
  proof (cases j)
    case 0
    with "3.prems" show ?thesis by simp
  next
    case (Suc k)
    with "3.prems" "3.IH" [of k] show ?thesis by simp
  qed
qed auto

lemma colonIndices_complete:
  "j < length t \<Longrightarrow> t ! j = CHR '':'' \<Longrightarrow> k + j \<in> set (colonIndices k t)"
proof (induction t arbitrary: j k)
  case Nil
  then show ?case by simp
next
  case (Cons c cs)
  show ?case
  proof (cases j)
    case 0
    with Cons.prems show ?thesis by simp
  next
    case (Suc i)
    with Cons.prems Cons.IH [of i "Suc k"] show ?thesis by simp
  qed
qed

lemma occursAt_nth:
  assumes "occursAt s t i" and "k < length s"
  shows "t ! (i + k) = s ! k"
proof -
  from assms(1) have eq: "take (length s) (drop i t) = s" and le: "i + length s \<le> length t"
    by (simp_all add: occursAt_def)
  have "s ! k = take (length s) (drop i t) ! k" by (simp only: eq)
  also have "\<dots> = drop i t ! k" using assms(2) by (rule nth_take)
  also have "\<dots> = t ! (i + k)" using le assms(2) by simp
  finally show ?thesis by simp
qed

lemma list_all_nth: "list_all P xs \<Longrightarrow> i < length xs \<Longrightarrow> P (xs ! i)"
  by (simp add: list_all_length)

lemma list_all_drop: "list_all P xs \<Longrightarrow> list_all P (drop n xs)"
  by (auto simp: list_all_iff dest: in_set_dropD)

lemma list_all_take: "list_all P xs \<Longrightarrow> list_all P (take n xs)"
  by (auto simp: list_all_iff dest: in_set_takeD)

lemma colonsSpaced_incArgs: "list_all colonsSpaced xs \<Longrightarrow> list_all colonsSpaced (incArgs xs)"
  by (induction xs) (auto simp: incArgs_def intro: colonsSpaced_append)

lemma assertVariableReference_colonFree:
  "assertVariableReference e = Inr v \<Longrightarrow> colonFree e \<Longrightarrow> colonsSpaced v"
  by (cases e) (auto intro: colonsSpaced_colonless)

text \<open>
  The text rendered from a colon-free expression has spaced colons: the only colon the
  printer writes is the one of \<open>lambda ...: ...\<close>, which a space follows.
\<close>

lemma rendered_colonsSpaced:
  "printExpression p e = Inr (s, p') \<Longrightarrow> colonFree e \<Longrightarrow> colonsSpaced s"
  "printArgs p es = Inr (ss, p') \<Longrightarrow> list_all colonFree es \<Longrightarrow> list_all colonsSpaced ss"
  "letParams p es = Inr (ss, p') \<Longrightarrow> list_all colonFree es \<Longrightarrow> list_all colonsSpaced ss"
  "defParams p es = Inr (ss, p') \<Longrightarrow> list_all colonFree es \<Longrightarrow> list_all colonsSpaced ss"
proof (induction p e and p es and p es and p es arbitrary: s p' and ss p' and ss p' and ss p'
       rule: printExpression_printArgs_letParams_defParams.induct)
  case (1 p v)
  then show ?case by (auto intro: colonsSpaced_colonless)
next
  case (2 p v)
  then show ?case by (auto intro: colonsSpaced_colonless)
next
  case (3 p l r)
  then show ?case by auto
next
  case (4 p eargs call)
  note eq = "4.prems"(1)
  from "4.prems"(2) have cf: "list_all colonFree eargs" and cc: "colonsSpaced call"
    by (auto intro: colonsSpaced_colonless)
  note rules = colonsSpaced_append colonsSpaced_Join colonsSpaced_incArgs list_all_drop
  show ?case
  proof (cases "printArgs p eargs")
    case (Inl f)
    with eq show ?thesis by simp
  next
    case (Inr b)
    obtain args p1 where b: "b = (args, p1)" by (cases b)
    note pa = Inr [unfolded b]
    from "4.IH"(1) [OF pa cf] have ga: "list_all colonsSpaced args" .
    have ga0: "colonsSpaced (args ! i)" if "i < length args" for i
      using list_all_nth [OF ga that] .
    consider (Let) "call = ''Let''" | (Cond) "call = ''Cond''" | (Def) "call = ''Def''"
      | (other) "call \<noteq> ''Let''" "call \<noteq> ''Cond''" "call \<noteq> ''Def''" by blast
    then show ?thesis
    proof cases
      case other
      have generic: "colonsSpaced (call @ ''('' @ Join args '','' @ '')'')"
        by (intro rules ga cc) simp_all
      have print: "colonsSpaced (''builtin__print('' @ Join args '','' @ '')'')"
        by (intro rules ga) simp_all
      have list: "colonsSpaced (''['' @ Join args '', '' @ '']'')"
        by (intro rules ga) simp_all
      have inc: "colonsSpaced (Join (incArgs args) '','')"
        by (intro rules ga) simp_all
      have map: "colonsSpaced (''map('' @ args ! 0 @ '', '' @ Join (drop 1 args) '', '' @ '')'')"
        if "\<not> length args < 1"
        by (intro rules ga ga0) (use that in auto)
      have call: "colonsSpaced (''(('' @ args ! 0 @ '')('' @ Join (drop 1 args) '','' @ ''))'')"
        if "\<not> length args < 1"
        by (intro rules ga ga0) (use that in auto)
      have assoc: "colonsSpaced (''builtin__assoc('' @ args ! 0 @ '', '' @ args ! 1 @ '', '' @
                                 args ! 2 @ '')'')" if "\<not> length args < 3"
        by (intro rules ga ga0) (use that in auto)
      have has: "colonsSpaced (''('' @ args ! 1 @ ''.get('' @ args ! 0 @ '', None) != None)'')"
        if "\<not> length args < 2"
        by (intro rules ga ga0) (use that in auto)
      have get: "colonsSpaced (''('' @ args ! 1 @ ''.get('' @ args ! 0 @ ''))'')"
        if "\<not> length args < 2"
        by (intro rules ga ga0) (use that in auto)
      from eq pa other show ?thesis
        by (simp split: if_splits)
           (use generic print list inc map call assoc has get in auto)
    next
      case Let
      from eq pa Let obtain params p2
        where lp: "letParams p1 (take (length eargs - 1) eargs) = Inr (params, p2)"
        by (auto split: sum.splits)
      from eq pa Let lp obtain body
        where ne: "eargs \<noteq> []"
          and bd: "printExpression p2 (eargs ! (length eargs - 1)) = Inr (body, p')"
          and s: "s = ''lambda '' @ Join params '', '' @ '': '' @ body"
        by (auto split: sum.splits if_splits)
      from "4.IH"(2) [OF pa refl _ Let lp list_all_take [OF cf]] Let
      have gp: "list_all colonsSpaced params" by simp
      from ne have "length eargs - 1 < length eargs" by (cases eargs) auto
      from "4.IH"(3) [OF pa refl _ Let lp refl ne bd list_all_nth [OF cf this]] Let
      have gb: "colonsSpaced body" by simp
      show ?thesis unfolding s by (intro rules gp gb) simp_all
    next
      case Cond
      from eq pa Cond have n2: "\<not> length eargs < 2" by (auto split: if_splits)
      from eq pa Cond n2 obtain t p2
        where r1: "printExpression p1 (eargs ! 1) = Inr (t, p2)"
        by (auto split: sum.splits)
      from eq pa Cond n2 r1 obtain c p3
        where r0: "printExpression p2 (eargs ! 0) = Inr (c, p3)"
        by (auto split: sum.splits)
      from eq pa Cond n2 r1 r0 have n3: "\<not> length eargs < 3"
        by (auto split: if_splits)
      from eq pa Cond n2 r1 r0 n3 obtain e
        where r2: "printExpression p3 (eargs ! 2) = Inr (e, p')"
          and s: "s = t @ '' if '' @ c @ '' else '' @ e"
        by (auto split: sum.splits)
      have c: "call \<noteq> ''Print''" "call \<noteq> ''Let''" "call \<noteq> ''HashMap''" "call \<noteq> ''Map''"
        "call \<noteq> ''List''" "call \<noteq> ''Call''" "call \<noteq> ''Assoc''" "call \<noteq> ''Has''"
        "call \<noteq> ''Get''" using Cond by simp_all
      note ih = "4.IH"(4-6) [OF pa refl c Cond n2]
      from n3 have len: "0 < length eargs" "1 < length eargs" "2 < length eargs" by auto
      from ih(1) [OF r1 list_all_nth [OF cf len(2)]] have g1: "colonsSpaced t" .
      from ih(2) [OF r1 refl r0 list_all_nth [OF cf len(1)]] have g0: "colonsSpaced c" .
      from ih(3) [OF r1 refl r0 refl n3 r2 list_all_nth [OF cf len(3)]]
      have g2: "colonsSpaced e" .
      show ?thesis unfolding s by (intro rules g0 g1 g2) simp_all
    next
      case Def
      have c: "call \<noteq> ''Print''" "call \<noteq> ''Let''" "call \<noteq> ''HashMap''" "call \<noteq> ''Map''"
        "call \<noteq> ''List''" "call \<noteq> ''Call''" "call \<noteq> ''Assoc''" "call \<noteq> ''Has''"
        "call \<noteq> ''Get''" "call \<noteq> ''Cond''" using Def by simp_all
      from eq pa Def have n1: "\<not> length eargs < 1" by (auto split: if_splits)
      then have len0: "0 < length eargs" by simp
      note ih = "4.IH"(7-9) [OF pa refl c Def n1]
      have generic: "colonsSpaced (call @ ''('' @ Join args '','' @ '')'')"
        by (intro rules ga cc) simp_all
      show ?thesis
      proof (cases "eargs ! 0")
        case (VariableReferenceExpression defname)
        with list_all_nth [OF cf len0] have gd: "colonsSpaced defname"
          by (auto intro: colonsSpaced_colonless)
        show ?thesis
        proof (cases "2 < length eargs")
          case False
          with eq pa Def n1 VariableReferenceExpression generic show ?thesis by auto
        next
          case True
          let ?params = "case eargs ! 1 of
                           CallExpression pargs pcall \<Rightarrow>
                             if pcall = ''Args'' then defParams p1 pargs else Inr ([], p1)
                         | _ \<Rightarrow> Inr ([], p1)"
          from eq pa Def n1 VariableReferenceExpression True obtain params p2
            where dp: "?params = Inr (params, p2)"
            by (auto split: sum.splits)
          from eq pa Def n1 VariableReferenceExpression True dp obtain body
            where bd: "printExpression p2 (eargs ! 2) = Inr (body, p')"
              and s: "s = defname @ '' = lambda '' @ Join params '', '' @ '': '' @ body"
            by (auto split: sum.splits)
          from ih(2) [OF VariableReferenceExpression True dp refl bd list_all_nth [OF cf True]]
          have gb: "colonsSpaced body" .
          from True have len1: "1 < length eargs" by simp
          have gp: "list_all colonsSpaced params"
          proof (cases "eargs ! 1")
            case (CallExpression pargs pcall)
            with list_all_nth [OF cf len1] have cp: "list_all colonFree pargs" by simp
            show ?thesis
            proof (cases "pcall = ''Args''")
              case True
              with dp CallExpression have "defParams p1 pargs = Inr (params, p2)" by simp
              from ih(1) [OF VariableReferenceExpression \<open>2 < length eargs\<close> CallExpression True
                  this cp]
              show ?thesis .
            next
              case False
              with dp CallExpression show ?thesis by auto
            qed
          qed (use dp in auto)
          show ?thesis unfolding s by (intro rules gd gp gb) simp_all
        qed
      next
        case (AssignmentExpression lhs rhs)
        with list_all_nth [OF cf len0] have cl: "colonFree lhs" and cr: "colonFree rhs" by auto
        from eq pa Def n1 AssignmentExpression obtain name
          where av: "assertVariableReference lhs = Inr name"
          by (auto split: sum.splits)
        from eq pa Def n1 AssignmentExpression av obtain v
          where r: "printExpression p1 rhs = Inr (v, p')" and s: "s = name @ '' = '' @ v"
          by (auto split: sum.splits)
        from ih(3) [OF AssignmentExpression av r cr] have gv: "colonsSpaced v" .
        from assertVariableReference_colonFree [OF av cl] have gn: "colonsSpaced name" .
        show ?thesis unfolding s by (intro rules gn gv) simp_all
      next
        case (LiteralNumberExpression v)
        with eq pa Def n1 generic show ?thesis by auto
      next
        case (CallExpression a c)
        with eq pa Def n1 generic show ?thesis by auto
      qed
    qed
  qed
next
  case (6 p a as)
  from "6.prems" obtain s1 p1 where pe: "printExpression p a = Inr (s1, p1)"
    by (auto split: sum.splits)
  from "6.prems" pe obtain ss1 where pas: "printArgs p1 as = Inr (ss1, p')" and ss: "ss = s1 # ss1"
    by (auto split: sum.splits)
  from "6.prems"(2) have ca: "colonFree a" and cas: "list_all colonFree as" by simp_all
  from "6.IH"(1) [OF pe ca] "6.IH"(2) [OF pe refl pas cas] ss show ?case by simp
next
  case (8 p lhs rhs as)
  from "8.prems"(2) have cl: "colonFree lhs" and cr: "colonFree rhs"
    and cas: "list_all colonFree as" by simp_all
  from "8.prems" obtain variable where av: "assertVariableReference lhs = Inr variable"
    by (auto split: sum.splits)
  from "8.prems" av obtain val p1 where pe: "printExpression p rhs = Inr (val, p1)"
    by (auto split: sum.splits)
  from "8.prems" av pe obtain params where lp: "letParams p1 as = Inr (params, p')"
    and ss: "ss = (variable @ '' = '' @ val) # params"
    by (auto split: sum.splits)
  from "8.IH"(1) [OF av pe cr] have gv: "colonsSpaced val" .
  from assertVariableReference_colonFree [OF av cl] have gn: "colonsSpaced variable" .
  have "colonsSpaced (variable @ '' = '' @ val)"
    by (intro colonsSpaced_append gn gv) simp_all
  with "8.IH"(2) [OF av pe refl lp cas] ss show ?case by simp
next
  case (9 p v as)
  from "9.prems" obtain params where lp: "letParams p as = Inr (params, p')"
    and ss: "ss = v # params"
    by (auto split: sum.splits)
  from "9.prems"(2) have cv: "colonsSpaced v" and cas: "list_all colonFree as"
    by (auto intro: colonsSpaced_colonless)
  from "9.IH" [OF lp cas] ss cv show ?case by simp
next
  case "10_1"
  then show ?case by simp
next
  case "10_2"
  then show ?case by simp
next
  case (12 p argname as)
  from "12.prems" obtain params where dp: "defParams p as = Inr (params, p')"
    and ss: "ss = argname # params"
    by (auto split: sum.splits)
  from "12.prems"(2) have cv: "colonsSpaced argname" and cas: "list_all colonFree as"
    by (auto intro: colonsSpaced_colonless)
  from "12.IH" [OF dp cas] ss cv show ?case by simp
next
  case (13 p sargs scall as)
  from "13.prems"(2) have csa: "list_all colonFree sargs" and cas: "list_all colonFree as"
    by simp_all
  show ?case
  proof (cases "scall = ''Args''")
    case True
    from "13.prems" True obtain sub p1 where pa: "printArgs p sargs = Inr (sub, p1)"
      by (auto split: sum.splits)
    from "13.prems" True pa obtain params where dp: "defParams p1 as = Inr (params, p')"
      and ss: "ss = sub @ params"
      by (auto split: sum.splits)
    from "13.IH"(1) [OF True pa csa] "13.IH"(2) [OF True pa refl dp cas] ss
    show ?thesis by simp
  next
    case False
    show ?thesis
    proof (cases "scall = ''HashMap''")
      case True
      from "13.prems" False True have n: "\<not> 1 < length sargs" "\<not> length sargs < 1"
        by (auto split: if_splits)
      from "13.prems" False True n obtain name
        where av: "assertVariableReference (sargs ! 0) = Inr name"
        by (auto split: sum.splits)
      from "13.prems" False True n av obtain params where dp: "defParams p as = Inr (params, p')"
        and ss: "ss = (name @ '' = dict()'') # params"
        by (auto split: sum.splits)
      from n have "0 < length sargs" by simp
      from assertVariableReference_colonFree [OF av list_all_nth [OF csa this]]
      have "colonsSpaced name" .
      then have "colonsSpaced (name @ '' = dict()'')"
        by (intro colonsSpaced_append) simp_all
      with "13.IH"(3) [OF False True n av dp cas] ss show ?thesis by simp
    next
      case notHashMap: False
      from "13.prems" False notHashMap have dp: "defParams p as = Inr (ss, p')" by simp
      from "13.IH"(4) [OF False notHashMap dp cas] show ?thesis .
    qed
  qed
next
  case (14 p lhs rhs as)
  from "14.prems"(2) have cl: "colonFree lhs" and cr: "colonFree rhs"
    and cas: "list_all colonFree as" by simp_all
  from "14.prems" obtain name where av: "assertVariableReference lhs = Inr name"
    by (auto split: sum.splits)
  from "14.prems" av obtain v p1 where pe: "printExpression p rhs = Inr (v, p1)"
    by (auto split: sum.splits)
  from "14.prems" av pe obtain params where dp: "defParams p1 as = Inr (params, p')"
    and ss: "ss = (name @ '' = '' @ v) # params"
    by (auto split: sum.splits)
  from "14.IH"(1) [OF av pe cr] have gv: "colonsSpaced v" .
  from assertVariableReference_colonFree [OF av cl] have gn: "colonsSpaced name" .
  have "colonsSpaced (name @ '' = '' @ v)"
    by (intro colonsSpaced_append gn gv) simp_all
  with "14.IH"(2) [OF av pe refl dp cas] ss show ?case by simp
next
  case (15 p v as)
  from "15.prems" have "defParams p as = Inr (ss, p')" "list_all colonFree as" by simp_all
  from "15.IH" [OF this] show ?case .
qed auto

section \<open>Where the assoc helper occurs in the output\<close>

lemma occursAt_middle: "occursAt s (a @ s @ b) (length a)"
  by (simp add: occursAt_def)

text \<open>
  The first line of the helper ends with a colon and a line break. So where the helper
  occurs in a text whose tail has spaced colons, that colon lies in the head of the text.
\<close>

lemma assoc_helper_colon:
  assumes occ: "occursAt ''def builtin__assoc(k, v, obj):\<newline>  obj[k] = v\<newline>  return obj\<newline>'' (A @ B) i"
    and B: "colonsSpaced B"
  shows "i + 29 \<in> set (colonIndices 0 A)"
proof -
  have c: "(A @ B) ! (i + 29) = CHR '':''" using occursAt_nth [OF occ, of 29] by simp
  have n: "(A @ B) ! (i + 30) = CHR ''\<newline>''" using occursAt_nth [OF occ, of 30] by simp
  have len: "i + 57 \<le> length (A @ B)" using occ by (simp add: occursAt_def)
  show ?thesis
  proof (cases "i + 29 < length A")
    case True
    with c have "A ! (i + 29) = CHR '':''" by (simp add: nth_append)
    from colonIndices_complete [OF True this, of 0] show ?thesis by simp
  next
    case False
    from False len have j: "i + 29 - length A < length B" by simp
    from c False have "B ! (i + 29 - length A) = CHR '':''" by (simp add: nth_append)
    from colonsSpaced_nth [OF B j this]
    have sp: "B ! Suc (i + 29 - length A) = CHR '' ''" by simp
    from False have "Suc (i + 29 - length A) = i + 30 - length A" by simp
    with sp have "B ! (i + 30 - length A) = CHR '' ''" by simp
    moreover from False n have "B ! (i + 30 - length A) = CHR ''\<newline>''"
      by (simp add: nth_append)
    ultimately show ?thesis by simp
  qed
qed

lemma assoc_helper_positions:
  assumes body: "colonsSpaced body"
    and pre: "pre = '''' \<or> pre = ''def builtin__print(*args, **kwargs):\<newline>  print(*args, **kwargs)\<newline>  return args[0]\<newline>'' @ ''\<newline>''"
  shows "occursAt ''def builtin__assoc(k, v, obj):\<newline>  obj[k] = v\<newline>  return obj\<newline>''
           (pre @ ''def builtin__assoc(k, v, obj):\<newline>  obj[k] = v\<newline>  return obj\<newline>'' @ ''\<newline>'' @ body) i = (i = length pre)"
    and "\<not> occursAt ''def builtin__assoc(k, v, obj):\<newline>  obj[k] = v\<newline>  return obj\<newline>'' (pre @ body) i"
proof -
  let ?AH = "''def builtin__assoc(k, v, obj):\<newline>  obj[k] = v\<newline>  return obj\<newline>''"
  let ?PH = "''def builtin__print(*args, **kwargs):\<newline>  print(*args, **kwargs)\<newline>  return args[0]\<newline>''"
  have first: "\<not> occursAt ?AH ((?PH @ ''\<newline>'' @ X) @ body) 6" for X
  proof
    assume "occursAt ?AH ((?PH @ ''\<newline>'' @ X) @ body) 6"
    from occursAt_nth [OF this, of 0] show False by simp
  qed
  show "occursAt ?AH (pre @ ?AH @ ''\<newline>'' @ body) i = (i = length pre)"
  proof
    assume "i = length pre"
    with occursAt_middle [of ?AH pre "''\<newline>'' @ body"] show "occursAt ?AH (pre @ ?AH @ ''\<newline>'' @ body) i"
      by simp
  next
    assume occ: "occursAt ?AH (pre @ ?AH @ ''\<newline>'' @ body) i"
    from pre show "i = length pre"
    proof
      assume e: "pre = ''''"
      from occ have "occursAt ?AH ((?AH @ ''\<newline>'') @ body) i" by (simp add: e)
      from assoc_helper_colon [OF this body] show ?thesis by (simp add: e)
    next
      assume e: "pre = ?PH @ ''\<newline>''"
      from occ have o: "occursAt ?AH ((?PH @ ''\<newline>'' @ ?AH @ ''\<newline>'') @ body) i"
        by (simp add: e)
      from assoc_helper_colon [OF this body] have "i = 6 \<or> i = 80" by simp
      with first [of "?AH @ ''\<newline>''"] o show ?thesis by (auto simp: e)
    qed
  qed
  show "\<not> occursAt ?AH (pre @ body) i"
  proof
    assume occ: "occursAt ?AH (pre @ body) i"
    from pre show False
    proof
      assume e: "pre = ''''"
      from occ have "occursAt ?AH ('''' @ body) i" by (simp add: e)
      from assoc_helper_colon [OF this body] show False by simp
    next
      assume e: "pre = ?PH @ ''\<newline>''"
      from occ have o: "occursAt ?AH ((?PH @ ''\<newline>'' @ '''') @ body) i" by (simp add: e)
      from assoc_helper_colon [OF this body] have "i = 6" by simp
      with first [of "''''"] o show False by simp
    qed
  qed
qed

section \<open>The assoc helper is injected once, before the rendered block\<close>

text \<open>
  C3. Whenever the printer returns an output for a program, the output is a prefix (empty,
  or the print helper and a line break), then the assoc helper and a line break if and
  only if the rendering came to a call of \<open>Assoc\<close>, \<open>Has\<close> or \<open>Get\<close> (however many, in
  whatever combination), then the rendered block. If moreover no name or numeral of the
  program contains a colon, which is the case of every program that \<open>Parse\<close> returns,
  whatever the source text, then the text of the assoc helper occurs in the output at
  exactly one position when the rendering came to one of the three forms, the position
  right after the prefix and so before the rendered block, and at no position when it did
  not; in particular at no position when none of the three forms occurs anywhere in the
  program.
\<close>

theorem assoc_helper_exactly_once:
  assumes "PrintPython (BlockStatement es) = Inr out"
  shows "\<exists>pre body p'.
           printStatement \<lparr>usingAssocBuiltin = False, usingPrintBuiltin = False\<rparr>
             (BlockStatement es) = Inr (body, p') \<and>
           (pre = '''' \<or>
            pre = ''def builtin__print(*args, **kwargs):\<newline>  print(*args, **kwargs)\<newline>  return args[0]\<newline>'' @ ''\<newline>'') \<and>
           out = pre @
             (if argsRenderAssoc es
              then ''def builtin__assoc(k, v, obj):\<newline>  obj[k] = v\<newline>  return obj\<newline>'' @ ''\<newline>''
              else '''') @ body \<and>
           ((list_all colonFree es \<or>
             (\<exists>src l. Parse (New src) = Inr (BlockStatement es, l))) \<longrightarrow>
             (\<forall>i. occursAt ''def builtin__assoc(k, v, obj):\<newline>  obj[k] = v\<newline>  return obj\<newline>'' out i =
                    (argsRenderAssoc es \<and> i = length pre)) \<and>
             (\<not> list_ex mentionsAssoc es \<longrightarrow>
               (\<forall>i. \<not> occursAt ''def builtin__assoc(k, v, obj):\<newline>  obj[k] = v\<newline>  return obj\<newline>'' out i)))"
proof -
  let ?p0 = "\<lparr>usingAssocBuiltin = False, usingPrintBuiltin = False\<rparr>"
  let ?AH = "''def builtin__assoc(k, v, obj):\<newline>  obj[k] = v\<newline>  return obj\<newline>''"
  let ?PH = "''def builtin__print(*args, **kwargs):\<newline>  print(*args, **kwargs)\<newline>  return args[0]\<newline>''"
  from assms obtain body p1 where ps: "printStatement ?p0 (BlockStatement es) = Inr (body, p1)"
    by (auto simp: PrintPython_def String_def split: sum.splits)
  from assms
  have out: "out = (if usingPrintBuiltin p1 then ?PH @ ''\<newline>'' else '''') @
                   (if usingAssocBuiltin p1 then ?AH @ ''\<newline>'' else '''') @ body"
    by (auto simp: PrintPython_def String_def ps Let_def printAssocBuiltin_def
          printPrintBuiltin_def simp del: printStatement.simps)
  from ps obtain ss where pa: "printArgs ?p0 es = Inr (ss, p1)"
    and body: "body = Join ss ''\<newline>''"
    by (auto split: sum.splits)
  from assoc_flag(2) [OF pa] have fl: "usingAssocBuiltin p1 = argsRenderAssoc es" by simp
  define pre where "pre = (if usingPrintBuiltin p1 then ?PH @ ''\<newline>'' else '''')"
  have pre: "pre = '''' \<or> pre = ?PH @ ''\<newline>''" by (simp add: pre_def)
  have out': "out = pre @ (if argsRenderAssoc es then ?AH @ ''\<newline>'' else '''') @ body"
    using out fl by (simp add: pre_def)
  have occ: "(\<forall>i. occursAt ?AH out i = (argsRenderAssoc es \<and> i = length pre)) \<and>
             (\<not> list_ex mentionsAssoc es \<longrightarrow> (\<forall>i. \<not> occursAt ?AH out i))"
    if "list_all colonFree es \<or> (\<exists>src l. Parse (New src) = Inr (BlockStatement es, l))"
  proof -
    from that have cf: "list_all colonFree es" by (auto dest: Parse_colonFree)
    from rendered_colonsSpaced(2) [OF pa cf] have "list_all colonsSpaced ss" .
    then have cb: "colonsSpaced body" unfolding body by (intro colonsSpaced_Join) simp_all
    have "\<forall>i. occursAt ?AH out i = (argsRenderAssoc es \<and> i = length pre)"
    proof (cases "argsRenderAssoc es")
      case True
      with out' have "out = pre @ ?AH @ ''\<newline>'' @ body" by simp
      with assoc_helper_positions(1) [OF cb pre] True show ?thesis by simp
    next
      case False
      with out' have "out = pre @ body" by simp
      with assoc_helper_positions(2) [OF cb pre] False show ?thesis by simp
    qed
    with rendersAssoc_mentions(2) [of es] show ?thesis by blast
  qed
  from ps pre out' occ show ?thesis by blast
qed

text \<open>
  Three programs: \<open>Print[Assoc[k, 1, m]]\<close> as parsed from its text (both helpers: the
  assoc helper occurs at position 80 only, after the print helper), the two statements
  \<open>Assoc[k, v, Get[k, m]] Has[a, m]\<close> as parsed from their text (the three forms
  together: the helper occurs at position 0 only), and the tree of \<open>F[x]\<close> (none of the
  forms: the helper occurs nowhere).
\<close>

theorem assoc_helper_exactly_once_witness:
  "Parse (New ''Print[Assoc[k, 1, m]]'') =
     Inr (BlockStatement [CallExpression [CallExpression
            [VariableReferenceExpression ''k'', LiteralNumberExpression ''1'',
             VariableReferenceExpression ''m''] ''Assoc''] ''Print''],
          \<lparr>row = 0, col = 15, source = [], tokenQueue = []\<rparr>) \<and>
   compile ''Print[Assoc[k, 1, m]]'' =
     Inr ''def builtin__print(*args, **kwargs):\<newline>  print(*args, **kwargs)\<newline>  return args[0]\<newline>\<newline>def builtin__assoc(k, v, obj):\<newline>  obj[k] = v\<newline>  return obj\<newline>\<newline>builtin__print(builtin__assoc(k, 1, m))'' \<and>
   (\<forall>i. occursAt ''def builtin__assoc(k, v, obj):\<newline>  obj[k] = v\<newline>  return obj\<newline>''
      ''def builtin__print(*args, **kwargs):\<newline>  print(*args, **kwargs)\<newline>  return args[0]\<newline>\<newline>def builtin__assoc(k, v, obj):\<newline>  obj[k] = v\<newline>  return obj\<newline>\<newline>builtin__print(builtin__assoc(k, 1, m))'' i
      = (i = 80)) \<and>
   Parse (New ''Assoc[k, v, Get[k, m]] Has[a, m]'') =
     Inr (BlockStatement
            [CallExpression [VariableReferenceExpression ''k'', VariableReferenceExpression ''v'',
               CallExpression [VariableReferenceExpression ''k'',
                 VariableReferenceExpression ''m''] ''Get''] ''Assoc'',
             CallExpression [VariableReferenceExpression ''a'',
               VariableReferenceExpression ''m''] ''Has''],
          \<lparr>row = 0, col = 22, source = [], tokenQueue = []\<rparr>) \<and>
   compile ''Assoc[k, v, Get[k, m]] Has[a, m]'' =
     Inr ''def builtin__assoc(k, v, obj):\<newline>  obj[k] = v\<newline>  return obj\<newline>\<newline>builtin__assoc(k, v, (m.get(k)))\<newline>(m.get(a, None) != None)'' \<and>
   (\<forall>i. occursAt ''def builtin__assoc(k, v, obj):\<newline>  obj[k] = v\<newline>  return obj\<newline>''
      ''def builtin__assoc(k, v, obj):\<newline>  obj[k] = v\<newline>  return obj\<newline>\<newline>builtin__assoc(k, v, (m.get(k)))\<newline>(m.get(a, None) != None)'' i
      = (i = 0)) \<and>
   list_all colonFree [CallExpression [VariableReferenceExpression ''x''] ''F''] \<and>
   \<not> list_ex mentionsAssoc [CallExpression [VariableReferenceExpression ''x''] ''F''] \<and>
   PrintPython (BlockStatement [CallExpression [VariableReferenceExpression ''x''] ''F'']) =
     Inr ''F(x)'' \<and>
   (\<forall>i. \<not> occursAt ''def builtin__assoc(k, v, obj):\<newline>  obj[k] = v\<newline>  return obj\<newline>'' ''F(x)'' i)"
proof -
  let ?p0 = "\<lparr>usingAssocBuiltin = False, usingPrintBuiltin = False\<rparr>"
  let ?AH = "''def builtin__assoc(k, v, obj):\<newline>  obj[k] = v\<newline>  return obj\<newline>''"
  let ?PH = "''def builtin__print(*args, **kwargs):\<newline>  print(*args, **kwargs)\<newline>  return args[0]\<newline>''"
  let ?S1 = "''Print[Assoc[k, 1, m]]''"
  let ?E1 = "[CallExpression [CallExpression
       [VariableReferenceExpression ''k'', LiteralNumberExpression ''1'',
        VariableReferenceExpression ''m''] ''Assoc''] ''Print'']"
  let ?L1 = "\<lparr>row = 0, col = 15, source = [], tokenQueue = []\<rparr>"
  let ?O1 = "''def builtin__print(*args, **kwargs):\<newline>  print(*args, **kwargs)\<newline>  return args[0]\<newline>\<newline>def builtin__assoc(k, v, obj):\<newline>  obj[k] = v\<newline>  return obj\<newline>\<newline>builtin__print(builtin__assoc(k, 1, m))''"
  let ?S2 = "''Assoc[k, v, Get[k, m]] Has[a, m]''"
  let ?E2 = "[CallExpression [VariableReferenceExpression ''k'', VariableReferenceExpression ''v'',
         CallExpression [VariableReferenceExpression ''k'', VariableReferenceExpression ''m'']
           ''Get''] ''Assoc'',
       CallExpression [VariableReferenceExpression ''a'', VariableReferenceExpression ''m'']
         ''Has'']"
  let ?L2 = "\<lparr>row = 0, col = 22, source = [], tokenQueue = []\<rparr>"
  let ?O2 = "''def builtin__assoc(k, v, obj):\<newline>  obj[k] = v\<newline>  return obj\<newline>\<newline>builtin__assoc(k, v, (m.get(k)))\<newline>(m.get(a, None) != None)''"
  let ?E3 = "[CallExpression [VariableReferenceExpression ''x''] ''F'']"
  have q1: "Parse (New ?S1) = Inr (BlockStatement ?E1, ?L1)" by code_simp
  have p1: "PrintPython (BlockStatement ?E1) = Inr ?O1" by code_simp
  from q1 p1 have k1: "compile ?S1 = Inr ?O1" by (simp only: compile_def sum.case prod.case)
  from q1 have h1: "list_all colonFree ?E1 \<or>
      (\<exists>src l. Parse (New src) = Inr (BlockStatement ?E1, l))" by blast
  have r1: "argsRenderAssoc ?E1" by simp
  from assoc_helper_exactly_once [OF p1] obtain pre body p'
    where b: "pre = '''' \<or> pre = ?PH @ ''\<newline>''"
      and c: "?O1 = pre @ (if argsRenderAssoc ?E1 then ?AH @ ''\<newline>'' else '''') @ body"
      and d: "(list_all colonFree ?E1 \<or>
                (\<exists>src l. Parse (New src) = Inr (BlockStatement ?E1, l))) \<longrightarrow>
                (\<forall>i. occursAt ?AH ?O1 i = (argsRenderAssoc ?E1 \<and> i = length pre)) \<and>
                (\<not> list_ex mentionsAssoc ?E1 \<longrightarrow> (\<forall>i. \<not> occursAt ?AH ?O1 i))"
    by blast
  from b c r1 have e: "pre = ?PH @ ''\<newline>''" by auto
  have "length (?PH @ ''\<newline>'') = 80" by code_simp
  with e have lp: "length pre = 80" by (simp only:)
  from d h1 have "\<forall>i. occursAt ?AH ?O1 i = (argsRenderAssoc ?E1 \<and> i = length pre)"
    by blast
  with r1 have "\<forall>i. occursAt ?AH ?O1 i = (i = length pre)" by simp
  from this [unfolded lp] have w1: "\<forall>i. occursAt ?AH ?O1 i = (i = 80)" .
  have q2: "Parse (New ?S2) = Inr (BlockStatement ?E2, ?L2)" by code_simp
  have p2: "PrintPython (BlockStatement ?E2) = Inr ?O2" by code_simp
  from q2 p2 have k2: "compile ?S2 = Inr ?O2" by (simp only: compile_def sum.case prod.case)
  from q2 have h2: "list_all colonFree ?E2 \<or>
      (\<exists>src l. Parse (New src) = Inr (BlockStatement ?E2, l))" by blast
  have r2: "argsRenderAssoc ?E2" by simp
  from assoc_helper_exactly_once [OF p2] obtain pre body p'
    where b: "pre = '''' \<or> pre = ?PH @ ''\<newline>''"
      and c: "?O2 = pre @ (if argsRenderAssoc ?E2 then ?AH @ ''\<newline>'' else '''') @ body"
      and d: "(list_all colonFree ?E2 \<or>
                (\<exists>src l. Parse (New src) = Inr (BlockStatement ?E2, l))) \<longrightarrow>
                (\<forall>i. occursAt ?AH ?O2 i = (argsRenderAssoc ?E2 \<and> i = length pre)) \<and>
                (\<not> list_ex mentionsAssoc ?E2 \<longrightarrow> (\<forall>i. \<not> occursAt ?AH ?O2 i))"
    by blast
  from b c r2 have e: "pre = ''''" by auto
  from d h2 have "\<forall>i. occursAt ?AH ?O2 i = (argsRenderAssoc ?E2 \<and> i = length pre)"
    by blast
  with r2 e have w2: "\<forall>i. occursAt ?AH ?O2 i = (i = 0)" by simp
  have p3: "PrintPython (BlockStatement ?E3) = Inr ''F(x)''" by code_simp
  have c3: "list_all colonFree ?E3" by simp
  have m3: "\<not> list_ex mentionsAssoc ?E3" by simp
  from assoc_helper_exactly_once [OF p3] obtain pre :: string
    where d: "(list_all colonFree ?E3 \<or>
                (\<exists>src l. Parse (New src) = Inr (BlockStatement ?E3, l))) \<longrightarrow>
                (\<forall>i. occursAt ?AH ''F(x)'' i = (argsRenderAssoc ?E3 \<and> i = length pre)) \<and>
                (\<not> list_ex mentionsAssoc ?E3 \<longrightarrow> (\<forall>i. \<not> occursAt ?AH ''F(x)'' i))"
    by blast
  with c3 m3 have w3: "\<forall>i. \<not> occursAt ?AH ''F(x)'' i" by blast
  from q1 k1 w1 q2 k2 w2 c3 m3 p3 w3 show ?thesis by (intro conjI)
qed

end
